theory Spec2Isabelle
  imports Main "HOL-Library.Signed_Division" "HOL-Library.Monad_Syntax"
begin

section \<open>Data model of main.cpp\<close>

text \<open>
  The clock and event logger of \<^verbatim>\<open>src/main.cpp\<close>: four buttons served by interrupt
  handlers, a polling main loop, a field editor over the string \<^verbatim>\<open>YYYY/MM/DD HH:MM:SS\<close>
  and a two-slot log in an I2C EEPROM.  C \<^verbatim>\<open>int\<close> values are modelled by \<open>int\<close>; the
  program only ever adds \<open>1\<close> or \<open>-1\<close> to numbers of at most four digits, and signed
  overflow (undefined in C) is outside the model.  The LCD calls have no effect on the
  state modelled here and are left out.
\<close>

datatype AppState = IDLE | LOG_TIME | DISPLAY_LOG | SET_TIME

text \<open>\<^verbatim>\<open>struct tm\<close> of \<^verbatim>\<open>time.h\<close>.\<close>

record tm =
  tm_sec :: int
  tm_min :: int
  tm_hour :: int
  tm_mday :: int
  tm_mon :: int
  tm_year :: int
  tm_wday :: int
  tm_yday :: int
  tm_isdst :: int

definition TIME_STR_SIZE :: nat where
  "TIME_STR_SIZE = 20"

definition LOG1_ADDR :: nat where
  "LOG1_ADDR = 0"

definition LOG2_ADDR :: nat where
  "LOG2_ADDR = 32"

definition DEBOUNCE_TIME_MS :: nat where
  "DEBOUNCE_TIME_MS = 200"

section \<open>The time field editor\<close>

fun getMaxDay :: "int \<Rightarrow> int \<Rightarrow> int" where
  "getMaxDay month year =
     (if month \<in> {1, 3, 5, 7, 8, 10, 12} then 31
      else if month \<in> {4, 6, 9, 11} then 30
      else if month = 2 then 28
      else 31)"

text \<open>
  \<^verbatim>\<open>my_strcmp\<close> on C strings, given as their characters before the terminating NUL:
  the end of a list is the NUL, whose unsigned value is 0.
\<close>

fun my_strcmp :: "string \<Rightarrow> string \<Rightarrow> int" where
  "my_strcmp (a # as) (b # bs) = (if a = b then my_strcmp as bs else of_char a - of_char b)"
| "my_strcmp (a # as) [] = of_char a"
| "my_strcmp [] (b # bs) = - of_char b"
| "my_strcmp [] [] = 0"

definition getCurrentFieldName :: "int \<Rightarrow> string" where
  "getCurrentFieldName pos =
     (if pos \<ge> 0 \<and> pos \<le> 3 then ''Year''
      else if pos \<ge> 5 \<and> pos \<le> 6 then ''Month''
      else if pos \<ge> 8 \<and> pos \<le> 9 then ''Day''
      else if pos \<ge> 11 \<and> pos \<le> 12 then ''Hour''
      else if pos \<ge> 14 \<and> pos \<le> 15 then ''Minute''
      else if pos \<ge> 17 \<and> pos \<le> 18 then ''Second''
      else ''Unknown'')"

definition adjustField :: "tm \<Rightarrow> int \<Rightarrow> int \<Rightarrow> tm" where
  "adjustField timeinfo currentEditPos delta =
     (let field = getCurrentFieldName currentEditPos in
      if my_strcmp field ''Year'' = 0 then
        timeinfo\<lparr>tm_year := tm_year timeinfo + delta\<rparr>
      else if my_strcmp field ''Month'' = 0 then
        (let mon = tm_mon timeinfo + delta;
             mon' = (if mon > 11 then 0 else if mon < 0 then 11 else mon);
             max_day = getMaxDay (mon' + 1) (tm_year timeinfo + 1900);
             t1 = timeinfo\<lparr>tm_mon := mon'\<rparr>
         in if tm_mday t1 > max_day then t1\<lparr>tm_mday := max_day\<rparr> else t1)
      else if my_strcmp field ''Day'' = 0 then
        (let max_day = getMaxDay (tm_mon timeinfo + 1) (tm_year timeinfo + 1900);
             mday = tm_mday timeinfo + delta
         in timeinfo\<lparr>tm_mday := (if mday > max_day then 1 else if mday < 1 then max_day else mday)\<rparr>)
      else if my_strcmp field ''Hour'' = 0 then
        (let hour = tm_hour timeinfo + delta
         in timeinfo\<lparr>tm_hour := (if hour > 23 then 0 else if hour < 0 then 23 else hour)\<rparr>)
      else if my_strcmp field ''Minute'' = 0 then
        (let minute = tm_min timeinfo + delta
         in timeinfo\<lparr>tm_min := (if minute > 59 then 0 else if minute < 0 then 59 else minute)\<rparr>)
      else if my_strcmp field ''Second'' = 0 then
        (let sec = tm_sec timeinfo + delta
         in timeinfo\<lparr>tm_sec := (if sec > 59 then 0 else if sec < 0 then 59 else sec)\<rparr>)
      else timeinfo)"

text \<open>
  \<^verbatim>\<open>isEditablePosition\<close>: the loop over \<^verbatim>\<open>separators[]\<close> returns false as soon as one of
  the five entries equals \<open>pos\<close>.
\<close>

definition separators :: "int list" where
  "separators = [4, 7, 10, 13, 16]"

definition isEditablePosition :: "int \<Rightarrow> bool" where
  "isEditablePosition pos =
     (if pos < 0 \<or> pos \<ge> int TIME_STR_SIZE - 1 then False
      else \<not> list_ex (\<lambda>sep. pos = sep) separators)"

text \<open>
  The two cursor loops of \<^verbatim>\<open>main\<close>.  On entering the editor the cursor starts at 0 and
  walks forward to the first editable position; on an advance it steps cyclically
  through the 19 positions.  C's \<^verbatim>\<open>%\<close> truncates towards zero, which is \<open>smod\<close>.
\<close>

function first_editable :: "int \<Rightarrow> int" where
  "first_editable pos =
     (if pos < int TIME_STR_SIZE - 1 \<and> \<not> isEditablePosition pos then first_editable (pos + 1)
      else pos)"
  by pat_completeness auto
termination
  by (relation "measure (\<lambda>pos. nat (19 - pos))") (auto simp: TIME_STR_SIZE_def)

declare first_editable.simps [simp del]

text \<open>
  The passes that the advance loop still makes from \<open>pos\<close> when it does not come back to
  its start: a separator is followed by a digit, and a negative position climbs to 0.
\<close>

definition loop_steps :: "int \<Rightarrow> nat" where
  "loop_steps pos =
     (let pos' = (pos + 1) smod 19 in
      if pos' < 0 then nat (1 - pos') else if isEditablePosition pos' then 1 else 2)"

lemma smod_19: "(k::int) smod 19 = (if 0 \<le> k then k mod 19 else - ((- k) mod 19))"
  by (simp add: signed_modulo_int_def sgn_if)

lemma loop_steps_decreases:
  assumes "pos' = (pos + 1) smod 19" and "\<not> isEditablePosition pos'"
  shows "loop_steps pos' < loop_steps pos"
proof (cases "pos' < 0")
  case True
  then have "pos' + 1 \<le> 0" by simp
  moreover have "- 19 < pos'" using assms(1) by (simp add: smod_19 split: if_splits)
  ultimately have "(pos' + 1) smod 19 = pos' + 1" by (simp add: smod_19)
  then show ?thesis
    using True assms(1)
    by (auto simp: loop_steps_def Let_def isEditablePosition_def TIME_STR_SIZE_def separators_def)
next
  case False
  then have range: "0 \<le> pos'" "pos' < 19"
    using assms(1) by (simp_all add: smod_19 split: if_splits)
  with assms(2) have "pos' \<in> {4, 7, 10, 13, 16}"
    by (auto simp: isEditablePosition_def separators_def TIME_STR_SIZE_def)
  then have "loop_steps pos' = 1"
    by (auto simp: loop_steps_def smod_19 isEditablePosition_def separators_def TIME_STR_SIZE_def)
  moreover have "loop_steps pos = 2"
    using assms False by (simp add: loop_steps_def Let_def)
  ultimately show ?thesis by simp
qed

function next_editable :: "int \<Rightarrow> int \<Rightarrow> int" where
  "next_editable startPos pos =
     (let pos' = (pos + 1) smod (int TIME_STR_SIZE - 1) in
      if pos' = startPos then pos'
      else if \<not> isEditablePosition pos' then next_editable startPos pos'
      else pos')"
  by pat_completeness auto
termination
  by (relation "measure (\<lambda>(startPos, pos). loop_steps pos)")
     (auto simp: TIME_STR_SIZE_def intro: loop_steps_decreases)

declare next_editable.simps [simp del]

section \<open>Strings, \<^verbatim>\<open>sscanf\<close>, \<^verbatim>\<open>sprintf\<close> and \<^verbatim>\<open>strftime\<close>\<close>

abbreviation NUL :: char where
  "NUL \<equiv> CHR 0x00"

text \<open>The string held by a character array: the characters before the first NUL.\<close>

definition c_str :: "char list \<Rightarrow> string" where
  "c_str buf = takeWhile (\<lambda>c. c \<noteq> NUL) buf"

definition isspace :: "char \<Rightarrow> bool" where
  "isspace c = (c \<in> set [CHR '' '', CHR 0x09, CHR 0x0A, CHR 0x0B, CHR 0x0C, CHR 0x0D])"

definition isdigit :: "char \<Rightarrow> bool" where
  "isdigit c = (c \<in> set ''0123456789'')"

definition dec_value :: "string \<Rightarrow> nat" where
  "dec_value ds = foldl (\<lambda>v c. 10 * v + (of_char c - 48)) 0 ds"

text \<open>
  The conversion \<^verbatim>\<open>%d\<close> of \<^verbatim>\<open>sscanf\<close>, with an optional field width: white space is
  skipped, then an optional sign and the longest run of digits are taken, sign and
  digits together no longer than the width.  No digit is a matching failure.  The result
  is the value and the rest of the input.
\<close>

definition scan_d :: "nat option \<Rightarrow> string \<Rightarrow> (int \<times> string) option" where
  "scan_d width s =
     (let s1 = dropWhile isspace s;
          (neg, s2, width') =
             (case s1 of
                c # cs \<Rightarrow>
                  if c = CHR ''-'' \<or> c = CHR ''+''
                  then (c = CHR ''-'', cs, map_option (\<lambda>w. w - 1) width)
                  else (False, s1, width)
              | [] \<Rightarrow> (False, s1, width));
          ds = takeWhile isdigit (case width' of None \<Rightarrow> s2 | Some w \<Rightarrow> take w s2)
      in if ds = [] then None
         else Some (if neg then - int (dec_value ds) else int (dec_value ds),
                    drop (length ds) s2))"

text \<open>An ordinary character of the format must be the next input character.\<close>

definition scan_lit :: "char \<Rightarrow> string \<Rightarrow> string option" where
  "scan_lit c s = (case s of x # xs \<Rightarrow> if x = c then Some xs else None | [] \<Rightarrow> None)"

text \<open>
  \<^verbatim>\<open>sscanf\<close> with the format \<^verbatim>\<open>"%d/%d/%d %d:%d:%d"\<close>, the year's width \<open>wy\<close> and the other
  widths \<open>w\<close>: \<open>Some\<close> of the six values when the call returns 6.  The space of the
  format skips white space; \<^verbatim>\<open>%d\<close> skips it again.
\<close>

definition sscanf_ts ::
  "nat option \<Rightarrow> nat option \<Rightarrow> string \<Rightarrow> (int \<times> int \<times> int \<times> int \<times> int \<times> int) option" where
  "sscanf_ts wy w s = do {
     (year, s1) \<leftarrow> scan_d wy s;
     s2 \<leftarrow> scan_lit CHR ''/'' s1;
     (month, s3) \<leftarrow> scan_d w s2;
     s4 \<leftarrow> scan_lit CHR ''/'' s3;
     (day, s5) \<leftarrow> scan_d w s4;
     (hour, s6) \<leftarrow> scan_d w (dropWhile isspace s5);
     s7 \<leftarrow> scan_lit CHR '':'' s6;
     (minute, s8) \<leftarrow> scan_d w s7;
     s9 \<leftarrow> scan_lit CHR '':'' s8;
     (second, s10) \<leftarrow> scan_d w s9;
     Some (year, month, day, hour, minute, second)
   }"

definition digit_char :: "nat \<Rightarrow> char" where
  "digit_char d = ''0123456789'' ! d"

fun digits :: "nat \<Rightarrow> string" where
  "digits n = (if n < 10 then [digit_char n] else digits (n div 10) @ [digit_char (n mod 10)])"

declare digits.simps [simp del]

text \<open>The conversion \<^verbatim>\<open>%0wd\<close> of \<^verbatim>\<open>sprintf\<close>: zeros after the sign up to the width \<open>w\<close>.\<close>

definition sprintf_0d :: "nat \<Rightarrow> int \<Rightarrow> string" where
  "sprintf_0d w v =
     (if v < 0
      then CHR ''-'' # replicate (w - 1 - length (digits (nat (- v)))) CHR ''0'' @ digits (nat (- v))
      else replicate (w - length (digits (nat v))) CHR ''0'' @ digits (nat v))"

text \<open>\<^verbatim>\<open>sprintf\<close> with the format \<^verbatim>\<open>"%04d/%02d/%02d %02d:%02d:%02d"\<close>.\<close>

definition sprintf_ts :: "int \<Rightarrow> int \<Rightarrow> int \<Rightarrow> int \<Rightarrow> int \<Rightarrow> int \<Rightarrow> string" where
  "sprintf_ts year month day hour minute second =
     sprintf_0d 4 year @ ''/'' @ sprintf_0d 2 month @ ''/'' @ sprintf_0d 2 day @ '' '' @
     sprintf_0d 2 hour @ '':'' @ sprintf_0d 2 minute @ '':'' @ sprintf_0d 2 second"

text \<open>
  \<^verbatim>\<open>strftime\<close> with the format \<^verbatim>\<open>"%Y/%m/%d %H:%M:%S"\<close> into an array of \<open>maxsize\<close> bytes,
  from the C library: the year \<open>tm_year + 1900\<close>, the month \<open>tm_mon + 1\<close> and the other
  fields as decimal numbers, two digits each and four for the year.  When the text and
  its NUL do not fit, the call returns 0 (\<open>None\<close> here) and C leaves the array
  indeterminate.
\<close>

definition strftime_ts :: "nat \<Rightarrow> tm \<Rightarrow> string option" where
  "strftime_ts maxsize t =
     (let s = sprintf_ts (tm_year t + 1900) (tm_mon t + 1) (tm_mday t)
                (tm_hour t) (tm_min t) (tm_sec t)
      in if length s < maxsize then Some s else None)"

text \<open>
  The array \<open>buf\<close> after the call: the text, its NUL, and the bytes behind them as they
  were.
  The program ignores the return value; where the call fails the model keeps the old
  array, and the theorems below that format a time assume that the text fits.
\<close>

definition strftime_buf :: "char list \<Rightarrow> nat \<Rightarrow> tm \<Rightarrow> char list" where
  "strftime_buf buf maxsize t =
     (case strftime_ts maxsize t of
        Some s \<Rightarrow> s @ NUL # drop (length s + 1) buf
      | None \<Rightarrow> buf)"

definition parseEditBufferToTm :: "char list \<Rightarrow> tm option" where
  "parseEditBufferToTm buffer =
     (case sscanf_ts (Some 4) (Some 2) (c_str buffer) of
        None \<Rightarrow> None
      | Some (year, mon, day, hour, minute, sec) \<Rightarrow>
          Some \<lparr>tm_sec = sec, tm_min = minute, tm_hour = hour, tm_mday = day, tm_mon = mon - 1,
                tm_year = year - 1900, tm_wday = 0, tm_yday = 0, tm_isdst = 0\<rparr>)"

section \<open>The log store\<close>

text \<open>
  The EEPROM as its bytes by internal address.  The two transfer functions ignore the
  result of the I2C calls, so a transfer is modelled as one that succeeds; \<open>len\<close> (the
  parameter \<^verbatim>\<open>size\<close>) bytes of \<open>data\<close> are written.
\<close>

type_synonym eeprom = "nat \<Rightarrow> char"

definition WriteEEPROM :: "eeprom \<Rightarrow> nat \<Rightarrow> char list \<Rightarrow> nat \<Rightarrow> eeprom" where
  "WriteEEPROM mem ep_address data len =
     (\<lambda>a. if ep_address \<le> a \<and> a < ep_address + len then data ! (a - ep_address) else mem a)"

definition ReadEEPROM :: "eeprom \<Rightarrow> nat \<Rightarrow> nat \<Rightarrow> char list" where
  "ReadEEPROM mem ep_address len = map mem [ep_address ..< ep_address + len]"

text \<open>\<^verbatim>\<open>storeCurrentTime\<close>, with \<open>now\<close> the local time that the clock gives.\<close>

definition storeCurrentTime :: "tm \<Rightarrow> eeprom \<Rightarrow> eeprom" where
  "storeCurrentTime now mem =
     (let oldLog = (ReadEEPROM mem LOG1_ADDR TIME_STR_SIZE)[TIME_STR_SIZE - 1 := NUL];
          mem1 = (if oldLog ! 0 \<noteq> NUL then WriteEEPROM mem LOG2_ADDR oldLog TIME_STR_SIZE
                  else mem);
          newLog = (strftime_buf (replicate TIME_STR_SIZE NUL) TIME_STR_SIZE now)[TIME_STR_SIZE - 1 := NUL]
      in WriteEEPROM mem1 LOG1_ADDR newLog TIME_STR_SIZE)"

text \<open>The two reads at the head of \<^verbatim>\<open>displayLogs\<close>: the latest and the previous record.\<close>

definition readLogs :: "eeprom \<Rightarrow> char list \<times> char list" where
  "readLogs mem =
     ((ReadEEPROM mem LOG1_ADDR TIME_STR_SIZE)[TIME_STR_SIZE - 1 := NUL],
      (ReadEEPROM mem LOG2_ADDR TIME_STR_SIZE)[TIME_STR_SIZE - 1 := NUL])"

text \<open>
  The text that \<^verbatim>\<open>displayLogs\<close> builds for one record in a 20-byte array: the six numbers
  printed again when \<^verbatim>\<open>sscanf\<close> finds them, the record itself otherwise.  \<open>None\<close> stands
  for a \<^verbatim>\<open>sprintf\<close> that writes past the end of the array.
\<close>

definition formatLog :: "char list \<Rightarrow> string option" where
  "formatLog log =
     (case sscanf_ts None None (c_str log) of
        Some (year, month, day, hour, minute, second) \<Rightarrow>
          (let out = sprintf_ts year month day hour minute second
           in if length out < TIME_STR_SIZE then Some out else None)
      | None \<Rightarrow> Some (take (TIME_STR_SIZE - 1) (c_str log)))"

definition displayLogs :: "eeprom \<Rightarrow> string option \<times> string option" where
  "displayLogs mem = (let (log1, log2) = readLogs mem in (formatLog log1, formatLog log2))"

section \<open>Interrupt handlers and the main loop\<close>

text \<open>
  The global variables, the four \<^verbatim>\<open>Timeout\<close> objects (the time in milliseconds at which
  an attached callback is due, if one is), the EEPROM, and the calendar times handed to
  \<^verbatim>\<open>set_time(mktime(...))\<close> so far.
\<close>

record sys =
  state :: AppState
  incrementPressed :: bool
  nextPositionPressed :: bool
  editBuffer :: "char list"
  currentEditPos :: int
  timeSetRequested :: bool
  decrementPressed :: bool
  user_button_debouncing :: bool
  replayButton_debouncing :: bool
  setTimeButton_debouncing :: bool
  incrementButton_debouncing :: bool
  debounce_user_button :: "nat option"
  debounce_replayButton :: "nat option"
  debounce_setTimeButton :: "nat option"
  debounce_incrementButton :: "nat option"
  eeprom :: eeprom
  set_time_calls :: "tm list"

definition debounce_user_button_callback :: "sys \<Rightarrow> sys" where
  "debounce_user_button_callback s = s\<lparr>user_button_debouncing := False\<rparr>"

definition debounce_replayButton_callback :: "sys \<Rightarrow> sys" where
  "debounce_replayButton_callback s = s\<lparr>replayButton_debouncing := False\<rparr>"

definition debounce_setTimeButton_callback :: "sys \<Rightarrow> sys" where
  "debounce_setTimeButton_callback s = s\<lparr>setTimeButton_debouncing := False\<rparr>"

definition debounce_incrementButton_callback :: "sys \<Rightarrow> sys" where
  "debounce_incrementButton_callback s = s\<lparr>incrementButton_debouncing := False\<rparr>"

text \<open>The handlers of the falling edges; \<open>t\<close> is the time of the interrupt in milliseconds.\<close>

definition onUserButtonPressed :: "nat \<Rightarrow> sys \<Rightarrow> sys" where
  "onUserButtonPressed t s =
     (if user_button_debouncing s then s
      else
        (let s1 = s\<lparr>user_button_debouncing := True,
                    debounce_user_button := Some (t + DEBOUNCE_TIME_MS)\<rparr>
         in if state s1 = IDLE then s1\<lparr>state := LOG_TIME\<rparr> else s1))"

definition onReplayButtonPressed :: "nat \<Rightarrow> sys \<Rightarrow> sys" where
  "onReplayButtonPressed t s =
     (if replayButton_debouncing s then s
      else
        (let s1 = s\<lparr>replayButton_debouncing := True,
                    debounce_replayButton := Some (t + DEBOUNCE_TIME_MS)\<rparr>
         in if state s1 = SET_TIME then s1\<lparr>decrementPressed := True\<rparr>
            else if state s1 = IDLE then s1\<lparr>state := DISPLAY_LOG\<rparr>
            else if state s1 = DISPLAY_LOG then s1\<lparr>state := IDLE\<rparr>
            else s1))"

definition onSetTimeButtonPressed :: "nat \<Rightarrow> sys \<Rightarrow> sys" where
  "onSetTimeButtonPressed t s =
     (if setTimeButton_debouncing s then s
      else
        (let s1 = s\<lparr>setTimeButton_debouncing := True,
                    debounce_setTimeButton := Some (t + DEBOUNCE_TIME_MS)\<rparr>
         in if state s1 = IDLE then s1\<lparr>timeSetRequested := True\<rparr>
            else if state s1 = SET_TIME then s1\<lparr>nextPositionPressed := True\<rparr>
            else s1))"

definition onIncrementButtonPressed :: "nat \<Rightarrow> sys \<Rightarrow> sys" where
  "onIncrementButtonPressed t s =
     (if incrementButton_debouncing s then s
      else
        (let s1 = s\<lparr>incrementButton_debouncing := True,
                    debounce_incrementButton := Some (t + DEBOUNCE_TIME_MS)\<rparr>
         in if state s1 = SET_TIME then s1\<lparr>incrementPressed := True\<rparr> else s1))"

text \<open>
  One pass of the \<^verbatim>\<open>while(1)\<close> loop of \<^verbatim>\<open>main\<close>, block by block in the order of the source;
  \<open>now\<close> is the local time read from the clock in this pass.
\<close>

definition main_enter_set_time :: "tm \<Rightarrow> sys \<Rightarrow> sys" where
  "main_enter_set_time now s =
     (if timeSetRequested s \<and> state s = IDLE
      then s\<lparr>timeSetRequested := False, state := SET_TIME,
              editBuffer := strftime_buf (editBuffer s) TIME_STR_SIZE now,
              currentEditPos := first_editable 0\<rparr>
      else s)"

definition main_log_time :: "tm \<Rightarrow> sys \<Rightarrow> sys" where
  "main_log_time now s =
     (if state s = LOG_TIME
      then s\<lparr>eeprom := storeCurrentTime now (eeprom s), state := IDLE\<rparr>
      else s)"

definition main_adjust :: "int \<Rightarrow> sys \<Rightarrow> sys" where
  "main_adjust delta s =
     (case parseEditBufferToTm (editBuffer s) of
        Some currentTime \<Rightarrow>
          s\<lparr>editBuffer := strftime_buf (editBuffer s) TIME_STR_SIZE (adjustField currentTime (currentEditPos s) delta)\<rparr>
      | None \<Rightarrow> s)"

definition main_next_position :: "sys \<Rightarrow> sys" where
  "main_next_position s =
     (if currentEditPos s = 18
      then
        (case parseEditBufferToTm (editBuffer s) of
           Some newTime \<Rightarrow> s\<lparr>set_time_calls := set_time_calls s @ [newTime], state := IDLE\<rparr>
         | None \<Rightarrow> s\<lparr>state := IDLE\<rparr>)
      else s\<lparr>currentEditPos := next_editable (currentEditPos s) (currentEditPos s)\<rparr>)"

definition main_set_time :: "sys \<Rightarrow> sys" where
  "main_set_time s =
     (if state s = SET_TIME
      then
        (let s1 = (if incrementPressed s then main_adjust 1 (s\<lparr>incrementPressed := False\<rparr>) else s);
             s2 = (if decrementPressed s1 then main_adjust (- 1) (s1\<lparr>decrementPressed := False\<rparr>)
                   else s1)
         in if nextPositionPressed s2 then main_next_position (s2\<lparr>nextPositionPressed := False\<rparr>)
            else s2)
      else s)"

definition main_loop_body :: "tm \<Rightarrow> sys \<Rightarrow> sys" where
  "main_loop_body now s = main_set_time (main_log_time now (main_enter_set_time now s))"

text \<open>
  The state in which \<^verbatim>\<open>main\<close> reaches its loop: the globals as initialised, the clock set
  once to 2025/01/01, the EEPROM as it was found.
\<close>

definition startup_time :: tm where
  "startup_time = \<lparr>tm_sec = 0, tm_min = 0, tm_hour = 0, tm_mday = 1, tm_mon = 0, tm_year = 125,
                   tm_wday = 0, tm_yday = 0, tm_isdst = 0\<rparr>"

definition init :: "eeprom \<Rightarrow> sys" where
  "init mem =
     \<lparr>state = IDLE, incrementPressed = False, nextPositionPressed = False,
      editBuffer = replicate TIME_STR_SIZE NUL, currentEditPos = 0,
      timeSetRequested = False, decrementPressed = False,
      user_button_debouncing = False, replayButton_debouncing = False,
      setTimeButton_debouncing = False, incrementButton_debouncing = False,
      debounce_user_button = None, debounce_replayButton = None,
      debounce_setTimeButton = None, debounce_incrementButton = None,
      eeprom = mem, set_time_calls = [startup_time]\<rparr>"

section \<open>Events in time\<close>

text \<open>
  What happens to the program: a falling edge on one of the four buttons, or one pass of
  the main loop.  Each event has a time in milliseconds.  A \<^verbatim>\<open>Timeout\<close> runs its callback
  once, 200 ms after \<^verbatim>\<open>attach\<close>: before an event at time \<open>t\<close> is handled, the callbacks due
  at \<open>t\<close> or earlier have run.  Handlers and passes are taken as indivisible.
\<close>

datatype Button = UserButton | ReplayButton | SetTimeButton | IncrementButton

datatype event = Fall Button | Pass tm

definition timeouts_due :: "nat \<Rightarrow> sys \<Rightarrow> sys" where
  "timeouts_due t s =
     (let s1 = (case debounce_user_button s of
                  Some d \<Rightarrow> if d \<le> t then debounce_user_button_callback (s\<lparr>debounce_user_button := None\<rparr>)
                            else s
                | None \<Rightarrow> s);
          s2 = (case debounce_replayButton s1 of
                  Some d \<Rightarrow> if d \<le> t then debounce_replayButton_callback (s1\<lparr>debounce_replayButton := None\<rparr>)
                            else s1
                | None \<Rightarrow> s1);
          s3 = (case debounce_setTimeButton s2 of
                  Some d \<Rightarrow> if d \<le> t then debounce_setTimeButton_callback (s2\<lparr>debounce_setTimeButton := None\<rparr>)
                            else s2
                | None \<Rightarrow> s2)
      in case debounce_incrementButton s3 of
           Some d \<Rightarrow> if d \<le> t then debounce_incrementButton_callback (s3\<lparr>debounce_incrementButton := None\<rparr>)
                     else s3
         | None \<Rightarrow> s3)"

fun handle :: "nat \<Rightarrow> event \<Rightarrow> sys \<Rightarrow> sys" where
  "handle t (Fall UserButton) s = onUserButtonPressed t s"
| "handle t (Fall ReplayButton) s = onReplayButtonPressed t s"
| "handle t (Fall SetTimeButton) s = onSetTimeButtonPressed t s"
| "handle t (Fall IncrementButton) s = onIncrementButtonPressed t s"
| "handle t (Pass now) s = main_loop_body now s"

definition step :: "nat \<Rightarrow> event \<Rightarrow> sys \<Rightarrow> sys" where
  "step t e s = handle t e (timeouts_due t s)"

inductive reachable :: "sys \<Rightarrow> bool" where
  reach_init: "reachable (init mem)"
| reach_step: "reachable s \<Longrightarrow> reachable (step t e s)"

section \<open>Logical presses\<close>

text \<open>
  The debounce flag and the \<^verbatim>\<open>Timeout\<close> of each button.  A falling edge at time \<open>t\<close> is a
  logical press when its handler gets past the guard on the flag, that is, when the flag
  is clear once the callbacks due by \<open>t\<close> have run.
\<close>

fun debouncing :: "Button \<Rightarrow> sys \<Rightarrow> bool" where
  "debouncing UserButton s = user_button_debouncing s"
| "debouncing ReplayButton s = replayButton_debouncing s"
| "debouncing SetTimeButton s = setTimeButton_debouncing s"
| "debouncing IncrementButton s = incrementButton_debouncing s"

fun timeout_of :: "Button \<Rightarrow> sys \<Rightarrow> nat option" where
  "timeout_of UserButton s = debounce_user_button s"
| "timeout_of ReplayButton s = debounce_replayButton s"
| "timeout_of SetTimeButton s = debounce_setTimeButton s"
| "timeout_of IncrementButton s = debounce_incrementButton s"

definition logical_press :: "Button \<Rightarrow> nat \<Rightarrow> sys \<Rightarrow> bool" where
  "logical_press b t s = (\<not> debouncing b (timeouts_due t s))"



section \<open>Presses of the set-time button\<close>

text \<open>
  A falling edge on the set-time button at time \<open>t\<close>, served 50 ms later by a pass of the
  main loop; and \<open>n\<close> such presses, 250 ms apart.  \<open>quiet t s\<close> says that no press is
  pending in the flags of \<open>s\<close> and that an edge on the set-time button at \<open>t\<close> is a logical
  press.
\<close>

definition press_pass :: "nat \<Rightarrow> tm \<Rightarrow> sys \<Rightarrow> sys" where
  "press_pass t now s = step (t + 50) (Pass now) (step t (Fall SetTimeButton) s)"

fun press_passes :: "nat \<Rightarrow> nat \<Rightarrow> tm \<Rightarrow> sys \<Rightarrow> sys" where
  "press_passes 0 t now s = s"
| "press_passes (Suc n) t now s = press_passes n (t + 250) now (press_pass t now s)"

definition quiet :: "nat \<Rightarrow> sys \<Rightarrow> bool" where
  "quiet t s =
     (\<not> incrementPressed s \<and> \<not> decrementPressed s \<and> \<not> nextPositionPressed s \<and>
      \<not> timeSetRequested s \<and> logical_press SetTimeButton t s)"

section \<open>The transition table of the specification\<close>

text \<open>
  The rows of the table of section 4.2 of the specification, as pairs of a trigger and
  the state it is taken in: the log button is \<open>UserButton\<close>, the toggle (or decrement)
  button is \<open>ReplayButton\<close>, the enter (or advance) button is \<open>SetTimeButton\<close>, and the
  scheduler tick is a pass of the main loop.
\<close>

fun in_table :: "event \<Rightarrow> AppState \<Rightarrow> bool" where
  "in_table (Fall UserButton) m = (m = IDLE)"
| "in_table (Pass now) m = (m = LOG_TIME)"
| "in_table (Fall ReplayButton) m = (m = IDLE \<or> m = DISPLAY_LOG \<or> m = SET_TIME)"
| "in_table (Fall SetTimeButton) m = (m = IDLE \<or> m = SET_TIME)"
| "in_table (Fall IncrementButton) m = (m = SET_TIME)"

text \<open>
  A handler that does not change the state itself leaves its press in a flag, and the
  next pass of the main loop acts on it.  The triggers that an event makes the program
  process are therefore the event itself and, for a pass, the presses pending in the
  flags.
\<close>

definition pending :: "sys \<Rightarrow> event list" where
  "pending s =
     (if timeSetRequested s \<or> nextPositionPressed s then [Fall SetTimeButton] else []) @
     (if incrementPressed s then [Fall IncrementButton] else []) @
     (if decrementPressed s then [Fall ReplayButton] else [])"

fun triggers :: "event \<Rightarrow> sys \<Rightarrow> event list" where
  "triggers (Fall b) s = [Fall b]"
| "triggers (Pass now) s = Pass now # pending s"

section \<open>Sample inputs\<close>

definition jan31 :: tm where
  "jan31 = \<lparr>tm_sec = 0, tm_min = 0, tm_hour = 0, tm_mday = 31, tm_mon = 0, tm_year = 125,
            tm_wday = 0, tm_yday = 0, tm_isdst = 0\<rparr>"

definition nov30 :: tm where
  "nov30 = \<lparr>tm_sec = 0, tm_min = 0, tm_hour = 0, tm_mday = 30, tm_mon = 10, tm_year = 125,
            tm_wday = 0, tm_yday = 0, tm_isdst = 0\<rparr>"

definition new_year :: tm where
  "new_year = \<lparr>tm_sec = 0, tm_min = 0, tm_hour = 0, tm_mday = 1, tm_mon = 0, tm_year = 125,
               tm_wday = 3, tm_yday = 0, tm_isdst = 0\<rparr>"

definition mid_june :: tm where
  "mid_june = \<lparr>tm_sec = 0, tm_min = 30, tm_hour = 12, tm_mday = 15, tm_mon = 5, tm_year = 125,
               tm_wday = 0, tm_yday = 165, tm_isdst = 0\<rparr>"

text \<open>A record of 20 bytes whose month has three digits.\<close>

definition wide_month :: "char list" where
  "wide_month = ''2025/100/1 0:0:0'' @ replicate 4 NUL"

definition blank_eeprom :: eeprom where
  "blank_eeprom = (\<lambda>a. CHR 0xFF)"

definition editing :: sys where
  "editing = step 1000 (Pass jan31) (step 990 (Fall SetTimeButton) (init blank_eeprom))"

definition unparsable :: sys where
  "unparsable = (init blank_eeprom)\<lparr>state := SET_TIME, nextPositionPressed := True,
                  currentEditPos := 18\<rparr>"

section \<open>Field adjustment\<close>

lemma month_field: "pos = 5 \<or> pos = 6 \<Longrightarrow> getCurrentFieldName pos = ''Month''"
  by (auto simp: getCurrentFieldName_def)

lemma day_field: "pos = 8 \<or> pos = 9 \<Longrightarrow> getCurrentFieldName pos = ''Day''"
  by (auto simp: getCurrentFieldName_def)

lemma adjust_month:
  assumes "pos = 5 \<or> pos = 6"
  shows "adjustField t pos delta =
     (let mon' = (if tm_mon t + delta > 11 then 0 else if tm_mon t + delta < 0 then 11
                  else tm_mon t + delta);
          max_day = getMaxDay (mon' + 1) (tm_year t + 1900)
      in t\<lparr>tm_mon := mon', tm_mday := (if tm_mday t > max_day then max_day else tm_mday t)\<rparr>)"
  by (simp add: adjustField_def month_field [OF assms] Let_def)

lemma adjust_day:
  assumes "pos = 8 \<or> pos = 9"
  shows "adjustField t pos delta =
     (let max_day = getMaxDay (tm_mon t + 1) (tm_year t + 1900);
          mday = tm_mday t + delta
      in t\<lparr>tm_mday := (if mday > max_day then 1 else if mday < 1 then max_day else mday)\<rparr>)"
  by (simp add: adjustField_def day_field [OF assms] Let_def)

lemma getMaxDay_table:
  assumes "0 \<le> m" and "m \<le> 11"
  shows "getMaxDay (m + 1) y = [31, 28, 31, 30, 31, 30, 31, 31, 30, 31, 30, 31] ! nat m"
proof -
  from assms
  have "m = 0 \<or> m = 1 \<or> m = 2 \<or> m = 3 \<or> m = 4 \<or> m = 5 \<or> m = 6 \<or> m = 7 \<or> m = 8 \<or> m = 9
      \<or> m = 10 \<or> m = 11"
    by arith
  then show ?thesis by (elim disjE) simp_all
qed

text \<open>
  Claim C4, as the code has it.  With the cursor in the Month field (positions 5 and 6),
  \<open>adjustField\<close> adds \<open>delta\<close> to the month and brings the sum back into 0..11 by a
  reset: above 11 it becomes 0 and below 0 it becomes 11.  For a step of one from a month
  of the calendar, the only steps the program makes, that is the sum modulo 12 (December
  + 1 is January).  The day of the month is then cut down to the length of the new month
  when it exceeds it, the lengths being 31, 28, 31, 30, 31, 30, 31, 31, 30, 31, 30 and
  31, and nothing else changes.
\<close>

theorem C4_adjust_month:
  assumes "pos = 5 \<or> pos = 6"
  shows "tm_mon (adjustField t pos delta) =
           (if tm_mon t + delta > 11 then 0 else if tm_mon t + delta < 0 then 11
            else tm_mon t + delta)
       \<and> 0 \<le> tm_mon (adjustField t pos delta) \<and> tm_mon (adjustField t pos delta) \<le> 11
       \<and> (0 \<le> tm_mon t \<and> tm_mon t \<le> 11 \<and> \<bar>delta\<bar> \<le> 1 \<longrightarrow>
           tm_mon (adjustField t pos delta) = (tm_mon t + delta) mod 12)
       \<and> tm_mday (adjustField t pos delta) =
           min (tm_mday t)
             ([31, 28, 31, 30, 31, 30, 31, 31, 30, 31, 30, 31] !
                nat (tm_mon (adjustField t pos delta)))
       \<and> adjustField t pos delta =
           t\<lparr>tm_mon := tm_mon (adjustField t pos delta),
             tm_mday := tm_mday (adjustField t pos delta)\<rparr>"
proof -
  define m where "m = (if tm_mon t + delta > 11 then 0 else if tm_mon t + delta < 0 then 11
            else tm_mon t + delta)"
  have range: "0 \<le> m" "m \<le> 11" by (simp_all add: m_def)
  have eq: "adjustField t pos delta =
      t\<lparr>tm_mon := m,
        tm_mday := (if tm_mday t > getMaxDay (m + 1) (tm_year t + 1900)
                    then getMaxDay (m + 1) (tm_year t + 1900) else tm_mday t)\<rparr>"
    by (simp add: adjust_month [OF assms] Let_def m_def del: getMaxDay.simps)
  have len: "getMaxDay (m + 1) (tm_year t + 1900) =
      [31, 28, 31, 30, 31, 30, 31, 31, 30, 31, 30, 31] ! nat m"
    using range by (rule getMaxDay_table)
  have wrap: "m = (tm_mon t + delta) mod 12"
    if h: "0 \<le> tm_mon t" "tm_mon t \<le> 11" "\<bar>delta\<bar> \<le> 1"
  proof -
    from h have "- 1 \<le> tm_mon t + delta" "tm_mon t + delta \<le> 12" by linarith+
    then consider "tm_mon t + delta = 12" | "tm_mon t + delta = - 1"
      | "0 \<le> tm_mon t + delta" "tm_mon t + delta \<le> 11"
      by linarith
    then show ?thesis by cases (simp_all add: m_def)
  qed
  have mon: "tm_mon (adjustField t pos delta) = m"
    and day: "tm_mday (adjustField t pos delta) =
      min (tm_mday t) ([31, 28, 31, 30, 31, 30, 31, 31, 30, 31, 30, 31] ! nat m)"
    by (simp_all add: eq len min_def del: getMaxDay.simps)
  have frame: "adjustField t pos delta =
      t\<lparr>tm_mon := tm_mon (adjustField t pos delta), tm_mday := tm_mday (adjustField t pos delta)\<rparr>"
    by (simp add: eq del: getMaxDay.simps)
  show ?thesis
    unfolding mon using range wrap day frame
    by (simp add: mon m_def [symmetric])
qed

theorem C4_adjust_month_witness:
  "((5::int) = 5 \<or> (5::int) = 6) \<and>
   (0 \<le> tm_mon jan31 \<and> tm_mon jan31 \<le> 11 \<and> \<bar>1::int\<bar> \<le> 1) \<and>
   tm_mon (adjustField jan31 5 1) = 1 \<and> tm_mday (adjustField jan31 5 1) = 28 \<and>
   tm_mon (adjustField (jan31\<lparr>tm_mon := 11\<rparr>) 5 1) = 0 \<and>
   tm_mday (adjustField (jan31\<lparr>tm_mon := 11\<rparr>) 5 1) = 31"
  using C4_adjust_month [of 5 jan31 1] C4_adjust_month [of 5 "jan31\<lparr>tm_mon := 11\<rparr>" 1]
  by (simp add: jan31_def)

text \<open>
  The wrap-around of claim C4 does not hold for every \<open>delta\<close>: five months after
  November the month is January, where a wrap into 0..11 gives April.
\<close>

theorem C4_wrap_counterexample:
  "tm_mon nov30 = 10 \<and> tm_mon (adjustField nov30 5 5) = 0 \<and> (tm_mon nov30 + 5) mod 12 = 3 \<and>
   tm_mon (adjustField nov30 5 5) \<noteq> (tm_mon nov30 + 5) mod 12"
  by (simp add: adjust_month nov30_def)

text \<open>
  Claim C5.  With the cursor in the Day field (positions 8 and 9), \<open>adjustField\<close> adds
  \<open>delta\<close> to the day and wraps it into 1..max for the current month: past the maximum
  it becomes 1, below 1 it becomes the maximum.  The maximum is 31, 30 or, for February
  in every year, 28.
\<close>

theorem C5_adjust_day:
  assumes "pos = 8 \<or> pos = 9"
  shows "tm_mday (adjustField t pos delta) =
           (if tm_mday t + delta > getMaxDay (tm_mon t + 1) (tm_year t + 1900) then 1
            else if tm_mday t + delta < 1 then getMaxDay (tm_mon t + 1) (tm_year t + 1900)
            else tm_mday t + delta)
       \<and> 1 \<le> tm_mday (adjustField t pos delta)
       \<and> tm_mday (adjustField t pos delta) \<le> getMaxDay (tm_mon t + 1) (tm_year t + 1900)
       \<and> (1 \<le> tm_mday t \<and> tm_mday t \<le> getMaxDay (tm_mon t + 1) (tm_year t + 1900) \<and> \<bar>delta\<bar> \<le> 1 \<longrightarrow>
            tm_mday (adjustField t pos delta) =
              (tm_mday t + delta - 1) mod getMaxDay (tm_mon t + 1) (tm_year t + 1900) + 1)
       \<and> adjustField t pos delta = t\<lparr>tm_mday := tm_mday (adjustField t pos delta)\<rparr>
       \<and> (\<forall>year. map (\<lambda>month. getMaxDay month year) [1, 2, 3, 4, 5, 6, 7, 8, 9, 10, 11, 12] =
             [31, 28, 31, 30, 31, 30, 31, 31, 30, 31, 30, 31])"
proof -
  define M where "M = getMaxDay (tm_mon t + 1) (tm_year t + 1900)"
  have M: "28 \<le> M" by (simp add: M_def)
  have eq: "adjustField t pos delta =
      t\<lparr>tm_mday := (if tm_mday t + delta > M then 1 else if tm_mday t + delta < 1 then M
                     else tm_mday t + delta)\<rparr>"
    by (simp add: adjust_day [OF assms] Let_def M_def del: getMaxDay.simps)
  have wrap: "(if x + delta > M then 1 else if x + delta < 1 then M else x + delta)
                = (x + delta - 1) mod M + 1"
    if "1 \<le> x" "x \<le> M" "\<bar>delta\<bar> \<le> 1" for x
  proof -
    consider "x + delta > M" | "x + delta < 1" | "1 \<le> x + delta" "x + delta \<le> M" by linarith
    then show ?thesis
    proof cases
      case 1
      with that have "x + delta - 1 = M" by simp
      with 1 M show ?thesis by simp
    next
      case 2
      with that have "x + delta - 1 = - 1" by simp
      with 2 M show ?thesis by (simp add: zmod_minus1)
    next
      case 3
      with M show ?thesis by (simp add: mod_pos_pos_trivial)
    qed
  qed
  have table: "\<forall>year. map (\<lambda>month. getMaxDay month year) [1, 2, 3, 4, 5, 6, 7, 8, 9, 10, 11, 12] =
             [31, 28, 31, 30, 31, 30, 31, 31, 30, 31, 30, 31]"
    by simp
  show ?thesis
    unfolding M_def [symmetric] using M wrap [of "tm_mday t"] table by (simp add: eq del: getMaxDay.simps)
qed

theorem C5_adjust_day_witness:
  "((8::int) = 8 \<or> (8::int) = 9) \<and>
   (1 \<le> tm_mday jan31 \<and> tm_mday jan31 \<le> getMaxDay (tm_mon jan31 + 1) (tm_year jan31 + 1900) \<and> \<bar>1::int\<bar> \<le> 1) \<and>
   tm_mday (adjustField jan31 8 1) = 1 \<and>  tm_mday (adjustField (jan31\<lparr>tm_mon := 1, tm_mday := 1\<rparr>) 9 (- 1)) = 28"
  using C5_adjust_day [of 8 jan31 1] C5_adjust_day [of 9 "jan31\<lparr>tm_mon := 1, tm_mday := 1\<rparr>" "- 1"] by (simp add: jan31_def)


section \<open>The cursor stays on a digit\<close>

lemmas callback_defs = debounce_user_button_callback_def debounce_replayButton_callback_def
  debounce_setTimeButton_callback_def debounce_incrementButton_callback_def

lemmas isr_defs = onUserButtonPressed_def onReplayButtonPressed_def onSetTimeButtonPressed_def
  onIncrementButtonPressed_def

lemma timeouts_due_keeps:
  "state (timeouts_due t s) = state s"
  "currentEditPos (timeouts_due t s) = currentEditPos s"
  "editBuffer (timeouts_due t s) = editBuffer s"
  "incrementPressed (timeouts_due t s) = incrementPressed s"
  "decrementPressed (timeouts_due t s) = decrementPressed s"
  "nextPositionPressed (timeouts_due t s) = nextPositionPressed s"
  "timeSetRequested (timeouts_due t s) = timeSetRequested s"
  "eeprom (timeouts_due t s) = eeprom s"
  "set_time_calls (timeouts_due t s) = set_time_calls s"
  by (simp_all add: timeouts_due_def Let_def callback_defs split: option.splits)

lemma editable_iff:
  "isEditablePosition p \<longleftrightarrow> p \<in> {0, 1, 2, 3, 5, 6, 8, 9, 11, 12, 14, 15, 17, 18}"
  by (auto simp: isEditablePosition_def TIME_STR_SIZE_def separators_def) arith

lemma first_editable_0: "first_editable 0 = 0"
  by (simp add: first_editable.simps isEditablePosition_def TIME_STR_SIZE_def separators_def)

lemma next_editable_table:
  "map (\<lambda>p. next_editable p p) [0, 1, 2, 3, 5, 6, 8, 9, 11, 12, 14, 15, 17, 18] =
     [1, 2, 3, 5, 6, 8, 9, 11, 12, 14, 15, 17, 18, 0]"
  by (simp add: next_editable.simps isEditablePosition_def TIME_STR_SIZE_def separators_def smod_19)

lemma next_editable_editable:
  "isEditablePosition p \<Longrightarrow> isEditablePosition (next_editable p p)"
  using next_editable_table by (auto simp: editable_iff)

lemma isr_keeps_pos:
  "currentEditPos (onUserButtonPressed t s) = currentEditPos s"
  "currentEditPos (onReplayButtonPressed t s) = currentEditPos s"
  "currentEditPos (onSetTimeButtonPressed t s) = currentEditPos s"
  "currentEditPos (onIncrementButtonPressed t s) = currentEditPos s"
  by (simp_all add: isr_defs Let_def)

lemma main_adjust_keeps:
  "currentEditPos (main_adjust d s) = currentEditPos s"
  "state (main_adjust d s) = state s"
  "nextPositionPressed (main_adjust d s) = nextPositionPressed s"
  "decrementPressed (main_adjust d s) = decrementPressed s"
  "set_time_calls (main_adjust d s) = set_time_calls s"
  "eeprom (main_adjust d s) = eeprom s"
  by (simp_all add: main_adjust_def split: option.splits)

lemma main_enter_set_time_pos:
  "currentEditPos (main_enter_set_time now s) =
     (if timeSetRequested s \<and> state s = IDLE then 0 else currentEditPos s)"
  by (simp add: main_enter_set_time_def first_editable_0)

lemma main_log_time_pos: "currentEditPos (main_log_time now s) = currentEditPos s"
  by (simp add: main_log_time_def)

lemma main_next_position_editable:
  "isEditablePosition (currentEditPos s) \<Longrightarrow>
   isEditablePosition (currentEditPos (main_next_position s))"
  by (auto simp: main_next_position_def next_editable_editable split: option.splits)

lemma main_set_time_editable:
  assumes "isEditablePosition (currentEditPos s)"
  shows "isEditablePosition (currentEditPos (main_set_time s))"
proof -
  define s1 where "s1 = (if incrementPressed s then main_adjust 1 (s\<lparr>incrementPressed := False\<rparr>) else s)"
  define s2 where "s2 = (if decrementPressed s1 then main_adjust (- 1) (s1\<lparr>decrementPressed := False\<rparr>) else s1)"
  have "currentEditPos s1 = currentEditPos s" by (simp add: s1_def main_adjust_keeps)
  then have "currentEditPos s2 = currentEditPos s" by (simp add: s2_def main_adjust_keeps)
  with assms have "isEditablePosition (currentEditPos (s2\<lparr>nextPositionPressed := False\<rparr>))" by simp
  then have "isEditablePosition (currentEditPos (main_next_position (s2\<lparr>nextPositionPressed := False\<rparr>)))"
    by (rule main_next_position_editable)
  moreover have "isEditablePosition (currentEditPos s2)"
    using assms \<open>currentEditPos s2 = currentEditPos s\<close> by simp
  ultimately show ?thesis
    using assms by (simp add: main_set_time_def Let_def s1_def [symmetric] s2_def [symmetric])
qed

lemma main_loop_body_editable:
  assumes "isEditablePosition (currentEditPos s)"
  shows "isEditablePosition (currentEditPos (main_loop_body now s))"
proof -
  have "isEditablePosition (currentEditPos (main_log_time now (main_enter_set_time now s)))"
    using assms by (simp add: main_log_time_pos main_enter_set_time_pos editable_iff)
  then show ?thesis
    unfolding main_loop_body_def by (rule main_set_time_editable)
qed

lemma step_editable:
  "isEditablePosition (currentEditPos s) \<Longrightarrow> isEditablePosition (currentEditPos (step t e s))"
proof (cases e)
  case (Fall b)
  assume "isEditablePosition (currentEditPos s)"
  then show ?thesis
    by (cases b) (simp_all add: step_def Fall isr_keeps_pos timeouts_due_keeps)
next
  case (Pass now)
  assume "isEditablePosition (currentEditPos s)"
  then show ?thesis
    by (simp add: step_def Pass main_loop_body_editable timeouts_due_keeps)
qed

lemma reachable_editable: "reachable s \<Longrightarrow> isEditablePosition (currentEditPos s)"
proof (induction rule: reachable.induct)
  case (reach_init mem)
  show ?case by (simp add: init_def isEditablePosition_def TIME_STR_SIZE_def separators_def)
next
  case (reach_step s t e)
  then show ?case by (simp add: step_editable)
qed




section \<open>How the state changes\<close>

lemma isr_state:
  "state (onUserButtonPressed t s) =
     (if \<not> user_button_debouncing s \<and> state s = IDLE then LOG_TIME else state s)"
  "state (onReplayButtonPressed t s) =
     (if \<not> replayButton_debouncing s \<and> state s = IDLE then DISPLAY_LOG
      else if \<not> replayButton_debouncing s \<and> state s = DISPLAY_LOG then IDLE else state s)"
  "state (onSetTimeButtonPressed t s) = state s"
  "state (onIncrementButtonPressed t s) = state s"
  by (simp_all add: isr_defs Let_def)

lemma main_enter_set_time_state:
  "state (main_enter_set_time now s) =
     (if timeSetRequested s \<and> state s = IDLE then SET_TIME else state s)"
  "nextPositionPressed (main_enter_set_time now s) = nextPositionPressed s"
  by (simp_all add: main_enter_set_time_def)

lemma main_log_time_state:
  "state (main_log_time now s) = (if state s = LOG_TIME then IDLE else state s)"
  "nextPositionPressed (main_log_time now s) = nextPositionPressed s"
  by (simp_all add: main_log_time_def)

lemma main_next_position_state:
  "state (main_next_position s) = (if currentEditPos s = 18 then IDLE else state s)"
  by (simp add: main_next_position_def split: option.splits)

lemma main_set_time_state:
  "state (main_set_time s) =
     (if state s = SET_TIME \<and> nextPositionPressed s \<and> currentEditPos s = 18 then IDLE
      else state s)"
proof -
  define s1 where "s1 = (if incrementPressed s then main_adjust 1 (s\<lparr>incrementPressed := False\<rparr>) else s)"
  define s2 where "s2 = (if decrementPressed s1 then main_adjust (- 1) (s1\<lparr>decrementPressed := False\<rparr>) else s1)"
  have 1: "state s1 = state s" "currentEditPos s1 = currentEditPos s"
    "nextPositionPressed s1 = nextPositionPressed s"
    by (simp_all add: s1_def main_adjust_keeps)
  have 2: "state s2 = state s" "currentEditPos s2 = currentEditPos s"
    "nextPositionPressed s2 = nextPositionPressed s"
    by (simp_all add: s2_def main_adjust_keeps 1)
  have "main_set_time s =
      (if state s = SET_TIME
       then if nextPositionPressed s2 then main_next_position (s2\<lparr>nextPositionPressed := False\<rparr>) else s2
       else s)"
    by (simp add: main_set_time_def Let_def s1_def [symmetric] s2_def [symmetric])
  then show ?thesis
    by (simp add: main_next_position_state 2)
qed

lemma main_loop_body_state:
  "state (main_loop_body now s) =
     (if state s = IDLE then (if timeSetRequested s then SET_TIME else IDLE)
      else if state s = LOG_TIME then IDLE
      else if state s = SET_TIME \<and> nextPositionPressed s \<and> currentEditPos s = 18 then IDLE
      else state s)"
  by (cases "state s")
     (simp_all add: main_loop_body_def main_set_time_state main_log_time_state main_log_time_pos
       main_enter_set_time_state main_enter_set_time_pos)


text \<open>
  Claim C2.  The no-op law: when no trigger that an event makes the program process is
  paired in the table of section 4.2 with the current state, the event leaves the state
  as it is.  For a falling edge the trigger is the press of that button (a log button
  press outside \<open>IDLE\<close>, an increment button press outside \<open>SET_TIME\<close>); for a pass of the
  main loop the triggers are the tick and the presses that the handlers left pending.
\<close>

theorem C2_noop_law:
  assumes "\<forall>trig \<in> set (triggers e s). \<not> in_table trig (state s)"
  shows "state (step t e s) = state s"
proof (cases e)
  case (Fall b)
  with assms show ?thesis
    by (cases b) (simp_all add: step_def isr_state timeouts_due_keeps)
next
  case (Pass now)
  with assms have "state s \<noteq> LOG_TIME"
    and "timeSetRequested s \<or> nextPositionPressed s \<longrightarrow> state s \<noteq> IDLE \<and> state s \<noteq> SET_TIME"
    by (auto simp: pending_def)
  then show ?thesis
    by (cases "state s") (simp_all add: Pass step_def main_loop_body_state timeouts_due_keeps)
qed

theorem C2_noop_law_witness:
  "triggers (Fall IncrementButton) (init blank_eeprom) = [Fall IncrementButton] \<and>
   \<not> in_table (Fall IncrementButton) (state (init blank_eeprom)) \<and>
   state (step 5 (Fall IncrementButton) (init blank_eeprom)) = IDLE \<and>
   triggers (Pass jan31) (init blank_eeprom) = [Pass jan31] \<and>
   \<not> in_table (Pass jan31) (state (init blank_eeprom)) \<and>
   state (step 50 (Pass jan31) (init blank_eeprom)) = IDLE"
proof -
  have a: "\<forall>trig \<in> set (triggers (Fall IncrementButton) (init blank_eeprom)).
      \<not> in_table trig (state (init blank_eeprom))"
    by (simp add: init_def)
  have b: "\<forall>trig \<in> set (triggers (Pass jan31) (init blank_eeprom)).
      \<not> in_table trig (state (init blank_eeprom))"
    by (simp add: init_def pending_def)
  have c: "state (init blank_eeprom) = IDLE" "pending (init blank_eeprom) = []"
    by (simp_all add: init_def pending_def)
  show ?thesis
    using C2_noop_law [OF a, of 5] C2_noop_law [OF b, of 50] c by simp
qed

lemma main_set_time_pos:
  "currentEditPos (main_set_time s) =
     (if state s = SET_TIME \<and> nextPositionPressed s \<and> currentEditPos s \<noteq> 18
      then next_editable (currentEditPos s) (currentEditPos s) else currentEditPos s)"
proof -
  define s1 where "s1 = (if incrementPressed s then main_adjust 1 (s\<lparr>incrementPressed := False\<rparr>) else s)"
  define s2 where "s2 = (if decrementPressed s1 then main_adjust (- 1) (s1\<lparr>decrementPressed := False\<rparr>) else s1)"
  have 1: "currentEditPos s1 = currentEditPos s" "nextPositionPressed s1 = nextPositionPressed s"
    by (simp_all add: s1_def main_adjust_keeps)
  have 2: "currentEditPos s2 = currentEditPos s" "nextPositionPressed s2 = nextPositionPressed s"
    by (simp_all add: s2_def main_adjust_keeps 1)
  have "main_set_time s =
      (if state s = SET_TIME
       then if nextPositionPressed s2 then main_next_position (s2\<lparr>nextPositionPressed := False\<rparr>) else s2
       else s)"
    by (simp add: main_set_time_def Let_def s1_def [symmetric] s2_def [symmetric])
  then show ?thesis
    by (auto simp: main_next_position_def 2 split: option.splits)
qed

lemma main_loop_body_pos:
  "currentEditPos (main_loop_body now s) =
     (if state s = IDLE \<and> timeSetRequested s
      then (if nextPositionPressed s then next_editable 0 0 else 0)
      else if state s = SET_TIME \<and> nextPositionPressed s \<and> currentEditPos s \<noteq> 18
      then next_editable (currentEditPos s) (currentEditPos s)
      else currentEditPos s)"
  by (cases "state s")
     (simp_all add: main_loop_body_def main_set_time_pos main_log_time_state main_log_time_pos
       main_enter_set_time_state main_enter_set_time_pos)

lemma init_fields:
  "state (init mem) = IDLE" "\<not> timeSetRequested (init mem)" "\<not> nextPositionPressed (init mem)"
  "\<not> incrementPressed (init mem)" "\<not> decrementPressed (init mem)"
  "currentEditPos (init mem) = 0" "timeouts_due t (init mem) = init mem"
  "\<not> setTimeButton_debouncing (init mem)" "\<not> user_button_debouncing (init mem)"
  by (simp_all add: init_def timeouts_due_def)

lemma enter_press_fields:
  assumes "state s = IDLE" "\<not> setTimeButton_debouncing s"
  shows "state (onSetTimeButtonPressed t s) = IDLE" "timeSetRequested (onSetTimeButtonPressed t s)"
    "nextPositionPressed (onSetTimeButtonPressed t s) = nextPositionPressed s"
  using assms by (simp_all add: onSetTimeButtonPressed_def Let_def)

text \<open>
  Claim C8.  In every reachable state, and so in every reachable state of the editor, the
  cursor is a position from 0 to 18 that is not one of the separators 4, 7, 10, 13 and
  16.  Entering the editor puts it at 0, the first editable position, and an advance
  moves it to the next editable position, cyclically and never onto a separator; with
  this layout the advance loop always finds a position other than the one it started
  from.
\<close>

theorem C8_cursor_editable:
  assumes "reachable s"
  shows "(state s = SET_TIME \<longrightarrow>
            0 \<le> currentEditPos s \<and> currentEditPos s \<le> 18 \<and> currentEditPos s \<notin> set separators)
       \<and> (timeSetRequested s \<and> state s = IDLE \<longrightarrow>
            currentEditPos (main_enter_set_time now s) = 0)
       \<and> (currentEditPos s \<noteq> 18 \<longrightarrow>
            currentEditPos (main_next_position s) = next_editable (currentEditPos s) (currentEditPos s)
            \<and> isEditablePosition (currentEditPos (main_next_position s))
            \<and> currentEditPos (main_next_position s) \<noteq> currentEditPos s)
       \<and> map (\<lambda>p. next_editable p p) [0, 1, 2, 3, 5, 6, 8, 9, 11, 12, 14, 15, 17, 18] =
            [1, 2, 3, 5, 6, 8, 9, 11, 12, 14, 15, 17, 18, 0]"
proof -
  have ed: "isEditablePosition (currentEditPos s)"
    using assms by (rule reachable_editable)
  then have range: "0 \<le> currentEditPos s \<and> currentEditPos s \<le> 18 \<and> currentEditPos s \<notin> set separators"
    by (auto simp: editable_iff separators_def)
  have enter: "timeSetRequested s \<and> state s = IDLE \<longrightarrow>
      currentEditPos (main_enter_set_time now s) = 0"
    by (simp add: main_enter_set_time_pos)
  have adv: "currentEditPos (main_next_position s) = next_editable (currentEditPos s) (currentEditPos s)"
    if "currentEditPos s \<noteq> 18"
    using that by (simp add: main_next_position_def)
  have distinct: "next_editable (currentEditPos s) (currentEditPos s) \<noteq> currentEditPos s"
    using ed next_editable_table by (auto simp: editable_iff)
  have adv3: "currentEditPos s \<noteq> 18 \<longrightarrow>
            currentEditPos (main_next_position s) = next_editable (currentEditPos s) (currentEditPos s)
            \<and> isEditablePosition (currentEditPos (main_next_position s))
            \<and> currentEditPos (main_next_position s) \<noteq> currentEditPos s"
    using adv distinct next_editable_editable [OF ed] by simp
  from range enter adv3 next_editable_table show ?thesis by blast
qed


theorem C8_cursor_editable_witness:
  "reachable editing \<and> state editing = SET_TIME \<and> currentEditPos editing = 0 \<and>
   currentEditPos (main_next_position editing) = 1 \<and>
   reachable (step 990 (Fall SetTimeButton) (init blank_eeprom)) \<and>
   timeSetRequested (step 990 (Fall SetTimeButton) (init blank_eeprom)) \<and>
   state (step 990 (Fall SetTimeButton) (init blank_eeprom)) = IDLE"
proof -
  let ?s0 = "step 990 (Fall SetTimeButton) (init blank_eeprom)"
  have r0: "reachable ?s0"
    by (intro reachable.intros)
  have r: "reachable editing"
    unfolding editing_def by (intro reachable.intros)
  have pre: "timeSetRequested ?s0" "state ?s0 = IDLE" "\<not> nextPositionPressed ?s0"
    by (simp_all add: step_def init_fields enter_press_fields)
  have st: "state editing = SET_TIME" "currentEditPos editing = 0"
    using pre
    by (simp_all add: editing_def step_def [of 1000] main_loop_body_state main_loop_body_pos
        timeouts_due_keeps)
  have tab: "next_editable 0 0 = 1"
    using next_editable_table by simp
  show ?thesis
    using C8_cursor_editable [OF r, of jan31] C8_cursor_editable [OF r0, of jan31] st pre r r0 tab
    by simp
qed


section \<open>Logging and committing\<close>

lemma main_loop_body_not_LOG_TIME: "state (main_loop_body now s) \<noteq> LOG_TIME"
  by (cases "state s") (simp_all add: main_loop_body_state)

lemma main_set_time_other:
  "state s \<noteq> SET_TIME \<Longrightarrow> main_set_time s = s"
  by (simp add: main_set_time_def)

text \<open>
  Claim C7.  In \<open>IDLE\<close>, a press of the log button that passes the debounce guard puts the
  program in \<open>LOG_TIME\<close>; the next pass of the main loop stores the current time once (the
  EEPROM after the pass is \<open>storeCurrentTime\<close> applied once to the EEPROM before it) and
  ends in \<open>IDLE\<close>.  No pass of the main loop ever ends in \<open>LOG_TIME\<close>, so that state does
  not last through a pass.
\<close>

theorem C7_log_press:
  assumes "state s = IDLE" and "\<not> user_button_debouncing s"
  shows "state (onUserButtonPressed t s) = LOG_TIME
       \<and> state (main_loop_body now (onUserButtonPressed t s)) = IDLE
       \<and> eeprom (main_loop_body now (onUserButtonPressed t s)) = storeCurrentTime now (eeprom s)
       \<and> set_time_calls (main_loop_body now (onUserButtonPressed t s)) = set_time_calls s
       \<and> state (main_loop_body now' s') \<noteq> LOG_TIME"
proof -
  define s1 where "s1 = onUserButtonPressed t s"
  have 1: "state s1 = LOG_TIME" "eeprom s1 = eeprom s" "set_time_calls s1 = set_time_calls s"
    using assms by (simp_all add: s1_def onUserButtonPressed_def Let_def)
  have 2: "main_enter_set_time now s1 = s1"
    using 1 by (simp add: main_enter_set_time_def)
  have 3: "main_loop_body now s1 = s1\<lparr>eeprom := storeCurrentTime now (eeprom s1), state := IDLE\<rparr>"
    using 1 by (simp add: main_loop_body_def 2 main_log_time_def main_set_time_other)
  show ?thesis
    unfolding s1_def [symmetric] using 1 by (simp add: 3 main_loop_body_not_LOG_TIME)
qed

theorem C7_log_press_witness:
  "state (init blank_eeprom) = IDLE \<and> \<not> user_button_debouncing (init blank_eeprom) \<and>
   state (onUserButtonPressed 10 (init blank_eeprom)) = LOG_TIME \<and>
   state (main_loop_body jan31 (onUserButtonPressed 10 (init blank_eeprom))) = IDLE \<and>
   eeprom (main_loop_body jan31 (onUserButtonPressed 10 (init blank_eeprom))) =
     storeCurrentTime jan31 (eeprom (init blank_eeprom))"
  using C7_log_press [of "init blank_eeprom" 10 jan31 jan31 "init blank_eeprom"]
  by (simp add: init_fields)

text \<open>
  Claim C10.  When the advance is processed in \<open>SET_TIME\<close> with the cursor at 18 and the
  edit buffer does not parse, the pass still ends in \<open>IDLE\<close>, but \<open>set_time\<close> is not called:
  the list of its calls is as before.
\<close>

theorem C10_commit_unparsable:
  assumes "state s = SET_TIME" and "nextPositionPressed s" and "currentEditPos s = 18"
    and "parseEditBufferToTm (editBuffer s) = None"
  shows "state (main_loop_body now s) = IDLE
       \<and> set_time_calls (main_loop_body now s) = set_time_calls s
       \<and> editBuffer (main_loop_body now s) = editBuffer s"
proof -
  have 1: "main_log_time now (main_enter_set_time now s) = s"
    using assms(1) by (simp add: main_enter_set_time_def main_log_time_def)
  have adj: "main_adjust d (s'\<lparr>incrementPressed := False\<rparr>) = s'\<lparr>incrementPressed := False\<rparr>"
    "main_adjust d (s'\<lparr>decrementPressed := False\<rparr>) = s'\<lparr>decrementPressed := False\<rparr>"
    if "parseEditBufferToTm (editBuffer s') = None" for d s'
    using that by (simp_all add: main_adjust_def)
  define s1 where "s1 = (if incrementPressed s then main_adjust 1 (s\<lparr>incrementPressed := False\<rparr>) else s)"
  define s2 where "s2 = (if decrementPressed s1 then main_adjust (- 1) (s1\<lparr>decrementPressed := False\<rparr>) else s1)"
  have p1: "editBuffer s1 = editBuffer s" "state s1 = SET_TIME" "nextPositionPressed s1"
    "currentEditPos s1 = 18" "set_time_calls s1 = set_time_calls s"
    using assms by (simp_all add: s1_def adj)
  have p2: "editBuffer s2 = editBuffer s" "state s2 = SET_TIME" "nextPositionPressed s2"
    "currentEditPos s2 = 18" "set_time_calls s2 = set_time_calls s"
    using assms p1 by (simp_all add: s2_def adj)
  have "main_set_time s = main_next_position (s2\<lparr>nextPositionPressed := False\<rparr>)"
    using assms(1) p2 by (simp add: main_set_time_def Let_def s1_def [symmetric] s2_def [symmetric])
  then show ?thesis
    using p2 assms(4) by (simp add: main_loop_body_def 1 main_next_position_def)
qed

theorem C10_commit_unparsable_witness:
  "state unparsable = SET_TIME \<and> nextPositionPressed unparsable \<and> currentEditPos unparsable = 18 \<and>
   parseEditBufferToTm (editBuffer unparsable) = None \<and>
   state (main_loop_body jan31 unparsable) = IDLE \<and>
   set_time_calls (main_loop_body jan31 unparsable) = [startup_time]"
proof -
  have p: "parseEditBufferToTm (editBuffer unparsable) = None"
    by (simp add: unparsable_def init_def parseEditBufferToTm_def c_str_def sscanf_ts_def
        scan_d_def TIME_STR_SIZE_def)
  have h: "state unparsable = SET_TIME" "nextPositionPressed unparsable" "currentEditPos unparsable = 18"
    by (simp_all add: unparsable_def)
  have c: "set_time_calls unparsable = [startup_time]"
    by (simp add: unparsable_def init_def)
  show ?thesis
    using C10_commit_unparsable [OF h p, of jan31] h p c by simp
qed


section \<open>Debouncing\<close>

lemma timeouts_due_debounce:
  "debouncing b (timeouts_due t s) =
     (debouncing b s \<and> (case timeout_of b s of Some d \<Rightarrow> \<not> d \<le> t | None \<Rightarrow> True))"
  "timeout_of b (timeouts_due t s) =
     (case timeout_of b s of Some d \<Rightarrow> if d \<le> t then None else Some d | None \<Rightarrow> None)"
  by (cases b; simp add: timeouts_due_def Let_def callback_defs split: option.splits)+

















section \<open>The two log records\<close>

lemma digit_char_in: "d < 10 \<Longrightarrow> digit_char d \<in> set ''0123456789''"
  unfolding digit_char_def by (rule nth_mem) simp

lemma digits_set: "set (digits n) \<subseteq> set ''0123456789''"
proof (induction n rule: digits.induct)
  case (1 n)
  show ?case
  proof (cases "n < 10")
    case True
    then have "digits n = [digit_char n]" by (subst digits.simps) simp
    then show ?thesis using digit_char_in [OF True] by simp
  next
    case False
    then have eq: "digits n = digits (n div 10) @ [digit_char (n mod 10)]"
      by (subst digits.simps) simp
    have "digit_char (n mod 10) \<in> set ''0123456789''" by (rule digit_char_in) simp
    with 1 [OF False] show ?thesis unfolding eq by simp
  qed
qed

lemma digits_no_NUL: "NUL \<notin> set (digits n)"
  using digits_set [of n] by auto

lemma sprintf_0d_no_NUL: "NUL \<notin> set (sprintf_0d w v)"
  by (simp add: sprintf_0d_def digits_no_NUL)

lemma sprintf_ts_no_NUL: "NUL \<notin> set (sprintf_ts y mo d h mi se)"
  by (simp add: sprintf_ts_def sprintf_0d_no_NUL)

lemma sprintf_ts_nonempty: "sprintf_ts y mo d h mi se \<noteq> []"
  by (simp add: sprintf_ts_def)

lemma strftime_ts_Some:
  assumes "strftime_ts n t = Some x"
  shows "length x < n" "NUL \<notin> set x" "x \<noteq> []"
  using assms sprintf_ts_no_NUL sprintf_ts_nonempty
  by (auto simp: strftime_ts_def Let_def split: if_splits)

lemma c_str_append_NUL: "NUL \<notin> set x \<Longrightarrow> c_str (x @ NUL # r) = x"
  unfolding c_str_def by (induction x) auto


lemma read_write_same:
  "length data = n \<Longrightarrow> ReadEEPROM (WriteEEPROM mem a data n) a n = data"
  by (auto simp: ReadEEPROM_def WriteEEPROM_def list_eq_iff_nth_eq)

lemma read_write_other:
  "a + n \<le> a' \<or> a' + n' \<le> a \<Longrightarrow>
   ReadEEPROM (WriteEEPROM mem a data n) a' n' = ReadEEPROM mem a' n'"
  by (auto simp: ReadEEPROM_def WriteEEPROM_def)

lemma length_ReadEEPROM: "length (ReadEEPROM mem a n) = n"
  by (simp add: ReadEEPROM_def)

lemma length_strftime_buf: "n \<le> length buf \<Longrightarrow> length (strftime_buf buf n t) = length buf"
  by (auto simp: strftime_buf_def dest: strftime_ts_Some(1) split: option.splits)

lemma readLogs_store:
  "readLogs (storeCurrentTime t mem) =
     ((strftime_buf (replicate TIME_STR_SIZE NUL) TIME_STR_SIZE t)[TIME_STR_SIZE - 1 := NUL],
      if fst (readLogs mem) ! 0 \<noteq> NUL then fst (readLogs mem) else snd (readLogs mem))"
proof -
  define oldLog where "oldLog = (ReadEEPROM mem LOG1_ADDR TIME_STR_SIZE)[TIME_STR_SIZE - 1 := NUL]"
  define newLog where "newLog = (strftime_buf (replicate TIME_STR_SIZE NUL) TIME_STR_SIZE t)[TIME_STR_SIZE - 1 := NUL]"
  define mem1 where "mem1 = (if oldLog ! 0 \<noteq> NUL then WriteEEPROM mem LOG2_ADDR oldLog TIME_STR_SIZE else mem)"
  have len: "length oldLog = TIME_STR_SIZE" "length newLog = TIME_STR_SIZE"
    by (simp_all add: oldLog_def newLog_def length_ReadEEPROM length_strftime_buf)
  have st: "storeCurrentTime t mem = WriteEEPROM mem1 LOG1_ADDR newLog TIME_STR_SIZE"
    by (simp add: storeCurrentTime_def Let_def oldLog_def newLog_def mem1_def)
  have latest: "ReadEEPROM (storeCurrentTime t mem) LOG1_ADDR TIME_STR_SIZE = newLog"
    unfolding st by (rule read_write_same) (rule len)
  have prev: "ReadEEPROM (storeCurrentTime t mem) LOG2_ADDR TIME_STR_SIZE =
      (if oldLog ! 0 \<noteq> NUL then oldLog else ReadEEPROM mem LOG2_ADDR TIME_STR_SIZE)"
    unfolding st mem1_def
    by (simp add: read_write_other read_write_same len LOG1_ADDR_def LOG2_ADDR_def TIME_STR_SIZE_def)
  have idem: "newLog[TIME_STR_SIZE - 1 := NUL] = newLog" "oldLog[TIME_STR_SIZE - 1 := NUL] = oldLog"
    by (simp_all add: newLog_def oldLog_def)
  have old: "fst (readLogs mem) = oldLog"
    and snd: "snd (readLogs mem) = (ReadEEPROM mem LOG2_ADDR TIME_STR_SIZE)[TIME_STR_SIZE - 1 := NUL]"
    by (simp_all only: readLogs_def oldLog_def fst_conv snd_conv)
  have "readLogs (storeCurrentTime t mem) =
      (newLog[TIME_STR_SIZE - 1 := NUL],
       (if oldLog ! 0 \<noteq> NUL then oldLog else ReadEEPROM mem LOG2_ADDR TIME_STR_SIZE)
         [TIME_STR_SIZE - 1 := NUL])"
    by (simp only: readLogs_def latest prev)
  also have "\<dots> = (newLog, if oldLog ! 0 \<noteq> NUL then oldLog else snd (readLogs mem))"
    using idem by (simp add: snd del: list_update_id)
  finally show ?thesis
    by (simp only: old newLog_def)
qed


lemma newLog_c_str:
  assumes "strftime_ts n t = Some x"
  shows "c_str ((strftime_buf buf n t)[n - 1 := NUL]) = x"
    and "(strftime_buf buf n t)[n - 1 := NUL] ! 0 \<noteq> NUL"
proof -
  note x = strftime_ts_Some [OF assms(1)]
  define r where "r = drop (length x + 1) buf"
  have buf: "strftime_buf buf n t = x @ NUL # r"
    using assms by (simp add: strftime_buf_def r_def)
  obtain r' where upd: "(x @ NUL # r)[n - 1 := NUL] = x @ NUL # r'"
  proof (cases "n - 1 - length x")
    case 0
    with x(1) have "n - 1 = length x" by arith
    then have "(x @ NUL # r)[n - 1 := NUL] = x @ NUL # r"
      by (simp add: list_update_append)
    then show ?thesis by (rule that)
  next
    case (Suc k)
    then have "n - 1 = length x + Suc k" by arith
    then have "(x @ NUL # r)[n - 1 := NUL] = x @ NUL # r[k := NUL]"
      by (simp add: list_update_append)
    then show ?thesis by (rule that)
  qed
  show "c_str ((strftime_buf buf n t)[n - 1 := NUL]) = x"
    unfolding buf upd using x(2) by (rule c_str_append_NUL)
  have "(x @ NUL # r') ! 0 = x ! 0" using x(3) by (simp add: nth_append)
  moreover have "x ! 0 \<in> set x" using x(3) by simp
  ultimately show "(strftime_buf buf n t)[n - 1 := NUL] ! 0 \<noteq> NUL"
    unfolding buf upd using x(2) by metis
qed

lemma strftime_samples:
  "strftime_ts TIME_STR_SIZE new_year = Some ''2025/01/01 00:00:00''"
  "strftime_ts TIME_STR_SIZE mid_june = Some ''2025/06/15 12:30:00''"
  by (simp_all add: strftime_ts_def sprintf_ts_def sprintf_0d_def digits.simps digit_char_def
      new_year_def mid_june_def TIME_STR_SIZE_def)

text \<open>
  Claim C1.  From any contents of the EEPROM, \<open>storeCurrentTime\<close> reads the latest record,
  copies it into the previous record when it is not empty, and then writes the new
  time into the latest record.  So after two calls, with times whose text fits the
  record, reading both records gives the second time as the latest and the first as the
  previous.
\<close>

theorem C1_record_twice:
  "readLogs (storeCurrentTime t mem) =
     ((strftime_buf (replicate TIME_STR_SIZE NUL) TIME_STR_SIZE t)[TIME_STR_SIZE - 1 := NUL],
      if fst (readLogs mem) ! 0 \<noteq> NUL then fst (readLogs mem) else snd (readLogs mem))
   \<and> (strftime_ts TIME_STR_SIZE t1 = Some x1 \<and> strftime_ts TIME_STR_SIZE t2 = Some x2 \<longrightarrow>
        c_str (fst (readLogs (storeCurrentTime t2 (storeCurrentTime t1 mem)))) = x2 \<and>
        c_str (snd (readLogs (storeCurrentTime t2 (storeCurrentTime t1 mem)))) = x1)"
proof (intro conjI impI)
  show "readLogs (storeCurrentTime t mem) =
     ((strftime_buf (replicate TIME_STR_SIZE NUL) TIME_STR_SIZE t)[TIME_STR_SIZE - 1 := NUL],
      if fst (readLogs mem) ! 0 \<noteq> NUL then fst (readLogs mem) else snd (readLogs mem))"
    by (rule readLogs_store)
next
  assume a: "strftime_ts TIME_STR_SIZE t1 = Some x1 \<and> strftime_ts TIME_STR_SIZE t2 = Some x2"
  let ?B1 = "(strftime_buf (replicate TIME_STR_SIZE NUL) TIME_STR_SIZE t1)[TIME_STR_SIZE - 1 := NUL]"
  let ?B2 = "(strftime_buf (replicate TIME_STR_SIZE NUL) TIME_STR_SIZE t2)[TIME_STR_SIZE - 1 := NUL]"
  from a have 1: "c_str ?B1 = x1" "?B1 ! 0 \<noteq> NUL" and 2: "c_str ?B2 = x2"
    using newLog_c_str by blast+
  have "fst (readLogs (storeCurrentTime t1 mem)) = ?B1"
    by (simp only: readLogs_store fst_conv)
  with 1(2) have "readLogs (storeCurrentTime t2 (storeCurrentTime t1 mem)) = (?B2, ?B1)"
    by (simp add: readLogs_store [of t2])
  with 1(1) 2
  show "c_str (fst (readLogs (storeCurrentTime t2 (storeCurrentTime t1 mem)))) = x2"
    and "c_str (snd (readLogs (storeCurrentTime t2 (storeCurrentTime t1 mem)))) = x1"
    by simp_all
qed

theorem C1_record_twice_witness:
  "strftime_ts TIME_STR_SIZE new_year = Some ''2025/01/01 00:00:00'' \<and>
   strftime_ts TIME_STR_SIZE mid_june = Some ''2025/06/15 12:30:00'' \<and>
   c_str (fst (readLogs (storeCurrentTime mid_june (storeCurrentTime new_year blank_eeprom)))) =
     ''2025/06/15 12:30:00'' \<and>
   c_str (snd (readLogs (storeCurrentTime mid_june (storeCurrentTime new_year blank_eeprom)))) =
     ''2025/01/01 00:00:00''"
  using C1_record_twice [where ?t1.0 = new_year and ?t2.0 = mid_june and mem = blank_eeprom
      and ?x1.0 = "''2025/01/01 00:00:00''" and ?x2.0 = "''2025/06/15 12:30:00''"]
    strftime_samples
  by simp


section \<open>Printing a time and reading it back\<close>

lemma digit_char_value: "d < 10 \<Longrightarrow> of_char (digit_char d) = 48 + d"
proof -
  assume "d < 10"
  then have "d = 0 \<or> d = 1 \<or> d = 2 \<or> d = 3 \<or> d = 4 \<or> d = 5 \<or> d = 6 \<or> d = 7 \<or> d = 8 \<or> d = 9"
    by arith
  then show ?thesis by (elim disjE) (simp_all add: digit_char_def)
qed

lemma isdigit_digit_char: "d < 10 \<Longrightarrow> isdigit (digit_char d)"
  unfolding isdigit_def by (rule digit_char_in)

lemma digits_isdigit: "c \<in> set (digits n) \<Longrightarrow> isdigit c"
  unfolding isdigit_def using digits_set [of n] by blast

lemma digits_nonempty: "digits n \<noteq> []"
  by (subst digits.simps) simp

lemma dec_value_snoc: "dec_value (ds @ [c]) = 10 * dec_value ds + (of_char c - 48)"
  by (simp add: dec_value_def)

lemma dec_value_digits: "dec_value (digits n) = n"
proof (induction n rule: digits.induct)
  case (1 n)
  show ?case
  proof (cases "n < 10")
    case True
    then have "digits n = [digit_char n]" by (subst digits.simps) simp
    then show ?thesis using True by (simp add: dec_value_def digit_char_value)
  next
    case False
    then have eq: "digits n = digits (n div 10) @ [digit_char (n mod 10)]"
      by (subst digits.simps) simp
    have "of_char (digit_char (n mod 10)) = 48 + n mod 10"
      by (rule digit_char_value) simp
    with 1 [OF False] show ?thesis unfolding eq dec_value_snoc by simp
  qed
qed

lemma dec_value_zeros: "dec_value (replicate k CHR ''0'' @ ds) = dec_value ds"
proof -
  have "foldl (\<lambda>v c. 10 * v + (of_char c - 48)) 0 (replicate k CHR ''0'') = (0::nat)"
    by (induction k) simp_all
  then show ?thesis by (simp add: dec_value_def)
qed


lemma isdigit_plain: "isdigit c \<Longrightarrow> \<not> isspace c \<and> c \<noteq> CHR ''-'' \<and> c \<noteq> CHR ''+''"
  by (auto simp: isdigit_def isspace_def)

lemma takeWhile_field:
  assumes "\<forall>c \<in> set ds. isdigit c"
    and "\<forall>w. width = Some w \<longrightarrow> length ds \<le> w"
    and "rest = [] \<or> \<not> isdigit (hd rest)"
  shows "takeWhile isdigit (case width of None \<Rightarrow> ds @ rest | Some w \<Rightarrow> take w (ds @ rest)) = ds"
proof -
  have stop: "takeWhile isdigit r = []" if "r = [] \<or> \<not> isdigit (hd r)" for r
    using that by (cases r) auto
  have all: "takeWhile isdigit (ds @ r) = ds" if "r = [] \<or> \<not> isdigit (hd r)" for r
    using assms(1) stop [OF that] by (simp add: takeWhile_append2)
  show ?thesis
  proof (cases width)
    case None
    then show ?thesis using all [OF assms(3)] by simp
  next
    case (Some w)
    with assms(2) have "length ds \<le> w" by simp
    then have "take w (ds @ rest) = ds @ take (w - length ds) rest" by simp
    moreover have "take (w - length ds) rest = [] \<or> \<not> isdigit (hd (take (w - length ds) rest))"
      using assms(3) by (cases rest; cases "w - length ds") auto
    ultimately show ?thesis using all Some by simp
  qed
qed

lemma scan_d_digits:
  assumes "\<forall>c \<in> set ds. isdigit c" and "ds \<noteq> []"
    and "\<forall>w. width = Some w \<longrightarrow> length ds \<le> w"
    and "rest = [] \<or> \<not> isdigit (hd rest)"
  shows "scan_d width (ds @ rest) = Some (int (dec_value ds), rest)"
proof -
  obtain c cs where ds: "ds = c # cs" using assms(2) by (cases ds) auto
  with assms(1) have c: "\<not> isspace c" "c \<noteq> CHR ''-''" "c \<noteq> CHR ''+''"
    using isdigit_plain [of c] by simp_all
  have tw: "takeWhile isdigit (case width of None \<Rightarrow> ds @ rest | Some w \<Rightarrow> take w (ds @ rest)) = ds"
    using assms(1,3,4) by (rule takeWhile_field)
  have tw': "takeWhile isdigit
      (case width of None \<Rightarrow> c # cs @ rest | Some w \<Rightarrow> take w (c # cs @ rest)) = c # cs"
    using tw unfolding ds by (simp only: append_Cons)
  have "scan_d width ((c # cs) @ rest) = Some (int (dec_value (c # cs)), rest)"
    using c by (simp add: scan_d_def Let_def tw')
  then show ?thesis by (simp only: ds)
qed

lemma scan_d_minus:
  assumes "\<forall>c \<in> set ds. isdigit c" and "ds \<noteq> []"
    and "\<forall>w. width = Some w \<longrightarrow> Suc (length ds) \<le> w"
    and "rest = [] \<or> \<not> isdigit (hd rest)"
  shows "scan_d width (CHR ''-'' # ds @ rest) = Some (- int (dec_value ds), rest)"
proof (cases width)
  case None
  have "takeWhile isdigit (case None of None \<Rightarrow> ds @ rest | Some w \<Rightarrow> take w (ds @ rest)) = ds"
    using assms(1) _ assms(4) by (rule takeWhile_field) simp
  then have tw: "takeWhile isdigit (ds @ rest) = ds" by simp
  show ?thesis
    using assms(2) by (simp add: None scan_d_def isspace_def Let_def tw)
next
  case (Some w)
  with assms(3) have "length ds \<le> w - 1" by auto
  then have "takeWhile isdigit
      (case Some (w - 1) of None \<Rightarrow> ds @ rest | Some w \<Rightarrow> take w (ds @ rest)) = ds"
    using assms(1) _ assms(4) by (intro takeWhile_field) simp_all
  then have tw: "takeWhile isdigit (take (w - Suc 0) (ds @ rest)) = ds" by simp
  show ?thesis
    using assms(2) by (simp add: Some scan_d_def isspace_def Let_def tw del: take_append)
qed


lemma isdigit_zero: "isdigit CHR ''0''"
  by (simp add: isdigit_def)

lemma sprintf_0d_nonneg:
  assumes "0 \<le> v"
  obtains ds where "sprintf_0d w v = ds" "\<forall>c \<in> set ds. isdigit c" "ds \<noteq> []"
    "int (dec_value ds) = v"
proof
  let ?ds = "replicate (w - length (digits (nat v))) CHR ''0'' @ digits (nat v)"
  show "sprintf_0d w v = ?ds" using assms by (simp add: sprintf_0d_def)
  show "\<forall>c \<in> set ?ds. isdigit c" by (auto simp: isdigit_zero digits_isdigit)
  show "?ds \<noteq> []" by (simp add: digits_nonempty)
  show "int (dec_value ?ds) = v" using assms by (simp add: dec_value_zeros dec_value_digits)
qed

lemma sprintf_0d_neg:
  assumes "v < 0"
  obtains ds where "sprintf_0d w v = CHR ''-'' # ds" "\<forall>c \<in> set ds. isdigit c" "ds \<noteq> []"
    "- int (dec_value ds) = v"
proof
  let ?ds = "replicate (w - 1 - length (digits (nat (- v)))) CHR ''0'' @ digits (nat (- v))"
  show "sprintf_0d w v = CHR ''-'' # ?ds" using assms by (simp add: sprintf_0d_def)
  show "\<forall>c \<in> set ?ds. isdigit c" by (auto simp: isdigit_zero digits_isdigit)
  show "?ds \<noteq> []" by (simp add: digits_nonempty)
  show "- int (dec_value ?ds) = v" using assms by (simp add: dec_value_zeros dec_value_digits)
qed

lemma scan_d_sprintf_0d:
  assumes "\<forall>k. width = Some k \<longrightarrow> length (sprintf_0d w v) \<le> k"
    and "rest = [] \<or> \<not> isdigit (hd rest)"
  shows "scan_d width (sprintf_0d w v @ rest) = Some (v, rest)"
proof (cases "v < 0")
  case True
  then obtain ds where ds: "sprintf_0d w v = CHR ''-'' # ds" "\<forall>c \<in> set ds. isdigit c" "ds \<noteq> []"
    "- int (dec_value ds) = v"
    by (rule sprintf_0d_neg)
  from assms(1) have "\<forall>k. width = Some k \<longrightarrow> Suc (length ds) \<le> k" by (simp add: ds(1))
  from scan_d_minus [OF ds(2,3) this assms(2)] show ?thesis by (simp add: ds(1,4))
next
  case False
  then have "0 \<le> v" by simp
  then obtain ds where ds: "sprintf_0d w v = ds" "\<forall>c \<in> set ds. isdigit c" "ds \<noteq> []"
    "int (dec_value ds) = v"
    by (rule sprintf_0d_nonneg)
  from assms(1) have "\<forall>k. width = Some k \<longrightarrow> length ds \<le> k" by (simp add: ds(1))
  from scan_d_digits [OF ds(2,3) this assms(2)] show ?thesis by (simp add: ds(1,4))
qed

lemma sprintf_0d_no_space: "dropWhile isspace (sprintf_0d w v @ rest) = sprintf_0d w v @ rest"
proof (cases "v < 0")
  case True
  then obtain ds where "sprintf_0d w v = CHR ''-'' # ds" by (rule sprintf_0d_neg)
  then show ?thesis by (simp add: isspace_def)
next
  case False
  then have "0 \<le> v" by simp
  then obtain ds where ds: "sprintf_0d w v = ds" "\<forall>c \<in> set ds. isdigit c" "ds \<noteq> []"
    by (rule sprintf_0d_nonneg)
  then obtain c cs where "ds = c # cs" by (cases ds) auto
  with ds show ?thesis using isdigit_plain [of c] by simp
qed


lemma sscanf_sprintf_ts:
  assumes "\<forall>k. wy = Some k \<longrightarrow> length (sprintf_0d 4 y) \<le> k"
    and "\<forall>k. w = Some k \<longrightarrow> length (sprintf_0d 2 mo) \<le> k"
    and "\<forall>k. w = Some k \<longrightarrow> length (sprintf_0d 2 d) \<le> k"
    and "\<forall>k. w = Some k \<longrightarrow> length (sprintf_0d 2 h) \<le> k"
    and "\<forall>k. w = Some k \<longrightarrow> length (sprintf_0d 2 mi) \<le> k"
    and "\<forall>k. w = Some k \<longrightarrow> length (sprintf_0d 2 se) \<le> k"
  shows "sscanf_ts wy w (sprintf_ts y mo d h mi se) = Some (y, mo, d, h, mi, se)"
proof -
  define r5 where "r5 = sprintf_0d 2 se"
  define r4 where "r4 = sprintf_0d 2 mi @ CHR '':'' # r5"
  define r3 where "r3 = sprintf_0d 2 h @ CHR '':'' # r4"
  define r2 where "r2 = sprintf_0d 2 d @ CHR '' '' # r3"
  define r1 where "r1 = sprintf_0d 2 mo @ CHR ''/'' # r2"
  have s: "sprintf_ts y mo d h mi se = sprintf_0d 4 y @ CHR ''/'' # r1"
    by (simp add: sprintf_ts_def r1_def r2_def r3_def r4_def r5_def)
  have sep: "\<not> isdigit CHR ''/''" "\<not> isdigit CHR '':''" "\<not> isdigit CHR '' ''"
    by (simp_all add: isdigit_def)
  have 0: "scan_d wy (sprintf_0d 4 y @ CHR ''/'' # r1) = Some (y, CHR ''/'' # r1)"
    using assms(1) by (rule scan_d_sprintf_0d) (simp add: sep)
  have 1: "scan_d w r1 = Some (mo, CHR ''/'' # r2)"
    unfolding r1_def using assms(2) by (rule scan_d_sprintf_0d) (simp add: sep)
  have 2: "scan_d w r2 = Some (d, CHR '' '' # r3)"
    unfolding r2_def using assms(3) by (rule scan_d_sprintf_0d) (simp add: sep)
  have sp: "isspace CHR '' ''" "dropWhile isspace r3 = r3"
    by (simp_all add: isspace_def [of "CHR '' ''"] r3_def sprintf_0d_no_space)
  have 3: "scan_d w r3 = Some (h, CHR '':'' # r4)"
    unfolding r3_def using assms(4) by (rule scan_d_sprintf_0d) (simp add: sep)
  have 4: "scan_d w r4 = Some (mi, CHR '':'' # r5)"
    unfolding r4_def using assms(5) by (rule scan_d_sprintf_0d) (simp add: sep)
  have "scan_d w (sprintf_0d 2 se @ []) = Some (se, [])"
    using assms(6) by (rule scan_d_sprintf_0d) simp
  then have 5: "scan_d w r5 = Some (se, [])"
    by (simp add: r5_def)
  show ?thesis
    unfolding s sscanf_ts_def by (simp add: 0 1 2 3 4 5 sp scan_lit_def)
qed


lemma sprintf_0d_length: "w \<le> length (sprintf_0d w v)"
  by (auto simp: sprintf_0d_def)

lemma length_sprintf_ts:
  "length (sprintf_ts y mo d h mi se) =
     length (sprintf_0d 4 y) + length (sprintf_0d 2 mo) + length (sprintf_0d 2 d) +
     length (sprintf_0d 2 h) + length (sprintf_0d 2 mi) + length (sprintf_0d 2 se) + 5"
  by (simp add: sprintf_ts_def)

lemma sprintf_ts_fits:
  assumes "length (sprintf_ts y mo d h mi se) < 20"
  shows "length (sprintf_0d 4 y) = 4" "length (sprintf_0d 2 mo) = 2" "length (sprintf_0d 2 d) = 2"
    "length (sprintf_0d 2 h) = 2" "length (sprintf_0d 2 mi) = 2" "length (sprintf_0d 2 se) = 2"
    "length (sprintf_ts y mo d h mi se) = 19"
  using assms sprintf_0d_length [of 4 y] sprintf_0d_length [of 2 mo] sprintf_0d_length [of 2 d]
    sprintf_0d_length [of 2 h] sprintf_0d_length [of 2 mi] sprintf_0d_length [of 2 se]
  unfolding length_sprintf_ts by linarith+

lemma parse_strftime:
  assumes "strftime_ts TIME_STR_SIZE t = Some x"
  shows "sscanf_ts (Some 4) (Some 2) x =
           Some (tm_year t + 1900, tm_mon t + 1, tm_mday t, tm_hour t, tm_min t, tm_sec t)"
    and "length x = 19"
proof -
  let ?x = "sprintf_ts (tm_year t + 1900) (tm_mon t + 1) (tm_mday t) (tm_hour t) (tm_min t) (tm_sec t)"
  from assms have x: "x = ?x" and "length ?x < 20"
    by (auto simp: strftime_ts_def Let_def TIME_STR_SIZE_def split: if_splits)
  note fits = sprintf_ts_fits [OF this(2)]
  show "length x = 19" unfolding x by (rule fits(7))
  show "sscanf_ts (Some 4) (Some 2) x =
           Some (tm_year t + 1900, tm_mon t + 1, tm_mday t, tm_hour t, tm_min t, tm_sec t)"
    unfolding x by (rule sscanf_sprintf_ts) (simp_all add: fits)
qed

lemma parseEditBufferToTm_strftime_buf:
  assumes "strftime_ts TIME_STR_SIZE t = Some x"
  shows "parseEditBufferToTm (strftime_buf buf TIME_STR_SIZE t) =
           Some \<lparr>tm_sec = tm_sec t, tm_min = tm_min t, tm_hour = tm_hour t, tm_mday = tm_mday t,
                 tm_mon = tm_mon t, tm_year = tm_year t, tm_wday = 0, tm_yday = 0, tm_isdst = 0\<rparr>"
proof -
  have "strftime_buf buf TIME_STR_SIZE t = x @ NUL # drop (length x + 1) buf"
    using assms by (simp add: strftime_buf_def)
  then have "c_str (strftime_buf buf TIME_STR_SIZE t) = x"
    using strftime_ts_Some(2) [OF assms] by (simp add: c_str_append_NUL)
  then show ?thesis
    by (simp add: parseEditBufferToTm_def parse_strftime(1) [OF assms])
qed


section \<open>Entering the editor, advancing and committing\<close>

lemma main_loop_body_advance:
  assumes "state s = SET_TIME" "\<not> incrementPressed s" "\<not> decrementPressed s"
    "nextPositionPressed s"
  shows "main_loop_body now s = main_next_position (s\<lparr>nextPositionPressed := False\<rparr>)"
  using assms
  by (simp add: main_loop_body_def main_enter_set_time_def main_log_time_def main_set_time_def)

lemma main_loop_body_enter:
  assumes "state s = IDLE" "\<not> incrementPressed s" "\<not> decrementPressed s"
    "\<not> nextPositionPressed s" "timeSetRequested s"
  shows "main_loop_body now s =
     s\<lparr>timeSetRequested := False, state := SET_TIME,
       editBuffer := strftime_buf (editBuffer s) TIME_STR_SIZE now, currentEditPos := 0\<rparr>"
  using assms
  by (simp add: main_loop_body_def main_enter_set_time_def main_log_time_def main_set_time_def
      first_editable_0)

lemma press_quiet:
  assumes "quiet t s"
  defines "c \<equiv> timeouts_due (t + 50) (step t (Fall SetTimeButton) s)"
  shows "state c = state s" "currentEditPos c = currentEditPos s" "editBuffer c = editBuffer s"
    "set_time_calls c = set_time_calls s" "\<not> incrementPressed c" "\<not> decrementPressed c"
    "timeSetRequested c = (state s = IDLE)" "nextPositionPressed c = (state s = SET_TIME)"
    "debouncing SetTimeButton c" "timeout_of SetTimeButton c = Some (t + 200)"
proof -
  define a where "a = timeouts_due t s"
  define b where "b = onSetTimeButtonPressed t a"
  have a: "state a = state s" "currentEditPos a = currentEditPos s" "editBuffer a = editBuffer s"
    "set_time_calls a = set_time_calls s" "\<not> incrementPressed a" "\<not> decrementPressed a"
    "\<not> timeSetRequested a" "\<not> nextPositionPressed a" "\<not> setTimeButton_debouncing a"
    using assms(1) by (simp_all add: a_def quiet_def timeouts_due_keeps logical_press_def)
  have b: "state b = state s" "currentEditPos b = currentEditPos s" "editBuffer b = editBuffer s"
    "set_time_calls b = set_time_calls s" "\<not> incrementPressed b" "\<not> decrementPressed b"
    "timeSetRequested b = (state s = IDLE)" "nextPositionPressed b = (state s = SET_TIME)"
    "debouncing SetTimeButton b" "timeout_of SetTimeButton b = Some (t + 200)"
    using a by (simp_all add: b_def onSetTimeButtonPressed_def Let_def DEBOUNCE_TIME_MS_def)
  have c: "c = timeouts_due (t + 50) b"
    by (simp add: c_def step_def b_def a_def)
  show "state c = state s" "currentEditPos c = currentEditPos s" "editBuffer c = editBuffer s"
    "set_time_calls c = set_time_calls s" "\<not> incrementPressed c" "\<not> decrementPressed c"
    "timeSetRequested c = (state s = IDLE)" "nextPositionPressed c = (state s = SET_TIME)"
    "debouncing SetTimeButton c" "timeout_of SetTimeButton c = Some (t + 200)"
    using b by (simp_all add: c timeouts_due_keeps timeouts_due_debounce)
qed

lemma press_pass_eq:
  "press_pass t now s = main_loop_body now (timeouts_due (t + 50) (step t (Fall SetTimeButton) s))"
  by (simp add: press_pass_def step_def [of "t + 50"])

lemma quiet_after:
  assumes "\<not> incrementPressed s" "\<not> decrementPressed s" "\<not> nextPositionPressed s"
    "\<not> timeSetRequested s" "timeout_of SetTimeButton s = Some (t + 200)"
  shows "quiet (t + 250) s"
  using assms by (simp add: quiet_def logical_press_def timeouts_due_debounce)


lemma enter_press:
  assumes "state s = IDLE" "quiet t s"
  shows "state (press_pass t now s) = SET_TIME"
    and "currentEditPos (press_pass t now s) = 0"
    and "editBuffer (press_pass t now s) = strftime_buf (editBuffer s) TIME_STR_SIZE now"
    and "set_time_calls (press_pass t now s) = set_time_calls s"
    and "quiet (t + 250) (press_pass t now s)"
proof -
  define c where "c = timeouts_due (t + 50) (step t (Fall SetTimeButton) s)"
  note c = press_quiet [OF assms(2), folded c_def]
  have eq: "press_pass t now s =
      c\<lparr>timeSetRequested := False, state := SET_TIME,
        editBuffer := strftime_buf (editBuffer c) TIME_STR_SIZE now, currentEditPos := 0\<rparr>"
    unfolding press_pass_eq c_def [symmetric]
    using c assms(1) by (intro main_loop_body_enter) simp_all
  show "state (press_pass t now s) = SET_TIME" "currentEditPos (press_pass t now s) = 0"
    "editBuffer (press_pass t now s) = strftime_buf (editBuffer s) TIME_STR_SIZE now"
    "set_time_calls (press_pass t now s) = set_time_calls s"
    using c by (simp_all add: eq)
  have "timeout_of SetTimeButton (press_pass t now s) = Some (t + 200)"
    using c(10) by (simp add: eq)
  then show "quiet (t + 250) (press_pass t now s)"
    using c assms(1) by (intro quiet_after) (simp_all add: eq)
qed

lemma advance_press:
  assumes "state s = SET_TIME" "quiet t s" "currentEditPos s \<noteq> 18"
  shows "state (press_pass t now s) = SET_TIME"
    and "currentEditPos (press_pass t now s) = next_editable (currentEditPos s) (currentEditPos s)"
    and "editBuffer (press_pass t now s) = editBuffer s"
    and "set_time_calls (press_pass t now s) = set_time_calls s"
    and "quiet (t + 250) (press_pass t now s)"
proof -
  define c where "c = timeouts_due (t + 50) (step t (Fall SetTimeButton) s)"
  note c = press_quiet [OF assms(2), folded c_def]
  have "press_pass t now s = main_next_position (c\<lparr>nextPositionPressed := False\<rparr>)"
    unfolding press_pass_eq c_def [symmetric]
    using c assms(1) by (intro main_loop_body_advance) simp_all
  then have eq: "press_pass t now s =
      c\<lparr>nextPositionPressed := False,
        currentEditPos := next_editable (currentEditPos s) (currentEditPos s)\<rparr>"
    using c(2) assms(3) by (simp add: main_next_position_def)
  show "state (press_pass t now s) = SET_TIME"
    "currentEditPos (press_pass t now s) = next_editable (currentEditPos s) (currentEditPos s)"
    "editBuffer (press_pass t now s) = editBuffer s"
    "set_time_calls (press_pass t now s) = set_time_calls s"
    using c assms(1) by (simp_all add: eq)
  have "timeout_of SetTimeButton (press_pass t now s) = Some (t + 200)"
    using c(10) by (simp add: eq)
  then show "quiet (t + 250) (press_pass t now s)"
    using c assms(1) by (intro quiet_after) (simp_all add: eq)
qed

lemma commit_press:
  assumes "state s = SET_TIME" "quiet t s" "currentEditPos s = 18"
  shows "state (press_pass t now s) = IDLE"
    and "set_time_calls (press_pass t now s) =
           set_time_calls s @ (case parseEditBufferToTm (editBuffer s) of Some newTime \<Rightarrow> [newTime] | None \<Rightarrow> [])"
    and "quiet (t + 250) (press_pass t now s)"
proof -
  define c where "c = timeouts_due (t + 50) (step t (Fall SetTimeButton) s)"
  note c = press_quiet [OF assms(2), folded c_def]
  have "press_pass t now s = main_next_position (c\<lparr>nextPositionPressed := False\<rparr>)"
    unfolding press_pass_eq c_def [symmetric]
    using c assms(1) by (intro main_loop_body_advance) simp_all
  then have eq: "press_pass t now s =
      c\<lparr>nextPositionPressed := False,
        set_time_calls := set_time_calls s @
          (case parseEditBufferToTm (editBuffer s) of Some newTime \<Rightarrow> [newTime] | None \<Rightarrow> []),
        state := IDLE\<rparr>"
    using c(2,3,4) assms(3) by (simp add: main_next_position_def split: option.splits)
  show "state (press_pass t now s) = IDLE"
    "set_time_calls (press_pass t now s) =
           set_time_calls s @ (case parseEditBufferToTm (editBuffer s) of Some newTime \<Rightarrow> [newTime] | None \<Rightarrow> [])"
    by (simp_all add: eq)
  have "timeout_of SetTimeButton (press_pass t now s) = Some (t + 200)"
    using c(10) by (simp add: eq)
  then show "quiet (t + 250) (press_pass t now s)"
    using c assms(1) by (intro quiet_after) (simp_all add: eq)
qed


lemma advance_presses:
  assumes "state s = SET_TIME" "quiet t s"
    and "\<forall>i<n. ((\<lambda>p. next_editable p p) ^^ i) (currentEditPos s) \<noteq> 18"
  shows "state (press_passes n t now s) = SET_TIME
       \<and> currentEditPos (press_passes n t now s) = ((\<lambda>p. next_editable p p) ^^ n) (currentEditPos s)
       \<and> editBuffer (press_passes n t now s) = editBuffer s
       \<and> set_time_calls (press_passes n t now s) = set_time_calls s
       \<and> quiet (t + 250 * n) (press_passes n t now s)"
  using assms
proof (induction n arbitrary: s t)
  case 0
  then show ?case by simp
next
  case (Suc n)
  let ?f = "\<lambda>p. next_editable p p"
  from Suc.prems(3) have "(?f ^^ 0) (currentEditPos s) \<noteq> 18" by blast
  then have ne: "currentEditPos s \<noteq> 18" by simp
  note st = advance_press [OF Suc.prems(1,2) ne, of now]
  have "\<forall>i<n. (?f ^^ i) (currentEditPos (press_pass t now s)) \<noteq> 18"
  proof (intro allI impI)
    fix i assume "i < n"
    then have "Suc i < Suc n" by simp
    with Suc.prems(3) have A: "(?f ^^ Suc i) (currentEditPos s) \<noteq> 18" by blast
    have "(?f ^^ Suc i) (currentEditPos s) = (?f ^^ i) (?f (currentEditPos s))"
      by (simp only: funpow_Suc_right o_apply)
    with A show "(?f ^^ i) (currentEditPos (press_pass t now s)) \<noteq> 18"
      by (simp add: st(2))
  qed
  from Suc.IH [OF st(1) st(5) this, of] st(3,4) funpow_swap1 [of ?f n "currentEditPos s"]
  show ?case by (simp add: st(2) add.assoc)
qed

lemma next_editable_values:
  "next_editable 0 0 = 1" "next_editable 1 1 = 2" "next_editable 2 2 = 3" "next_editable 3 3 = 5"
  "next_editable 5 5 = 6" "next_editable 6 6 = 8" "next_editable 8 8 = 9" "next_editable 9 9 = 11"
  "next_editable 11 11 = 12" "next_editable 12 12 = 14" "next_editable 14 14 = 15"
  "next_editable 15 15 = 17" "next_editable 17 17 = 18" "next_editable 18 18 = 0"
  using next_editable_table by simp_all

lemma thirteen_advances:
  "((\<lambda>p. next_editable p p) ^^ 13) 0 = 18"
  "\<forall>i<13. ((\<lambda>p. next_editable p p) ^^ i) 0 \<noteq> 18"
  "((\<lambda>p. next_editable p p) ^^ 3) 0 = 3"
  "\<forall>i<3. ((\<lambda>p. next_editable p p) ^^ i) 0 \<noteq> 18"
  by (simp_all add: eval_nat_numeral All_less_Suc next_editable_values)


lemma press_passes_Suc_right:
  "press_passes (Suc n) u now z = press_pass (u + 250 * n) now (press_passes n u now z)"
proof (induction n arbitrary: u z)
  case 0
  show ?case by simp
next
  case (Suc n)
  have "press_passes (Suc (Suc n)) u now z = press_passes (Suc n) (u + 250) now (press_pass u now z)"
    by (simp only: press_passes.simps)
  also have "\<dots> = press_pass (u + 250 + 250 * n) now
      (press_passes n (u + 250) now (press_pass u now z))"
    by (rule Suc.IH)
  also have "\<dots> = press_pass (u + 250 * Suc n) now (press_passes (Suc n) u now z)"
    by (simp add: add.assoc)
  finally show ?case .
qed

lemma quiet_init: "quiet t (init mem)"
  by (simp add: quiet_def logical_press_def init_fields)

lemma press_passes_add:
  "press_passes (m + n) t now s = press_passes n (t + 250 * m) now (press_passes m t now s)"
  by (induction m arbitrary: t s) (simp_all add: add.assoc)

lemma eighteen_presses:
  assumes "state s = IDLE" and "quiet t s"
  shows "state (press_passes 18 (t + 250) now' (press_pass t now s)) = SET_TIME"
    and "currentEditPos (press_passes 18 (t + 250) now' (press_pass t now s)) = 3"
proof -
  define s1 where "s1 = press_pass t now s"
  define s14 where "s14 = press_passes 13 (t + 250) now' s1"
  define s15 where "s15 = press_pass (t + 250 + 250 * 13) now' s14"
  define s16 where "s16 = press_pass (t + 250 + 250 * 13 + 250) now' s15"
  note e = enter_press [OF assms, of now, folded s1_def]
  have ne: "\<forall>i<13. ((\<lambda>p. next_editable p p) ^^ i) (currentEditPos s1) \<noteq> 18"
    using thirteen_advances(2) by (simp only: e(2))
  note a = advance_presses [OF e(1) e(5) ne, of now', folded s14_def]
  have a14: "state s14 = SET_TIME" "currentEditPos s14 = 18" "quiet (t + 250 + 250 * 13) s14"
    using a thirteen_advances(1) by (simp_all add: e(2))
  note c = commit_press [OF a14(1) a14(3) a14(2), of now', folded s15_def]
  note e2 = enter_press [OF c(1) c(3), of now', folded s16_def]
  have ne3: "\<forall>i<3. ((\<lambda>p. next_editable p p) ^^ i) (currentEditPos s16) \<noteq> 18"
    using thirteen_advances(4) by (simp only: e2(2))
  note a3 = advance_presses [OF e2(1) e2(5) ne3, of now']
  have split: "press_passes 18 (t + 250) now' s1 =
      press_passes 3 (t + 250 + 250 * 13 + 250 + 250) now' s16"
    using press_passes_add [of 13 5 "t + 250" now' s1]
    by (simp add: s14_def s15_def s16_def eval_nat_numeral add.assoc)
  show "state (press_passes 18 (t + 250) now' (press_pass t now s)) = SET_TIME"
    and "currentEditPos (press_passes 18 (t + 250) now' (press_pass t now s)) = 3"
    unfolding s1_def [symmetric] split using a3 thirteen_advances(3) by (simp_all add: e2(2))
qed

text \<open>
  Claim C3, as the code has it.  In \<open>IDLE\<close> with no press pending, a press of the set-time
  button, served by the next pass, enters \<open>SET_TIME\<close> with the cursor at 0 and the current
  time printed into the edit buffer.  Thirteen further presses bring the cursor to 18, the
  last position, and the fourteenth commits: the program is back in \<open>IDLE\<close> and \<open>set_time\<close>
  has been called once more, with the time read back from the edit buffer.
\<close>

theorem C3_enter_advance_commit:
  assumes "state s = IDLE" and "quiet t s" and "strftime_ts TIME_STR_SIZE now = Some x"
  shows "state (press_pass t now s) = SET_TIME
       \<and> currentEditPos (press_pass t now s) = 0
       \<and> c_str (editBuffer (press_pass t now s)) = x
       \<and> state (press_passes 13 (t + 250) now' (press_pass t now s)) = SET_TIME
       \<and> currentEditPos (press_passes 13 (t + 250) now' (press_pass t now s)) = 18
       \<and> set_time_calls (press_passes 13 (t + 250) now' (press_pass t now s)) = set_time_calls s
       \<and> state (press_passes 14 (t + 250) now' (press_pass t now s)) = IDLE
       \<and> set_time_calls (press_passes 14 (t + 250) now' (press_pass t now s)) =
           set_time_calls s @
             [\<lparr>tm_sec = tm_sec now, tm_min = tm_min now, tm_hour = tm_hour now,
               tm_mday = tm_mday now, tm_mon = tm_mon now, tm_year = tm_year now,
               tm_wday = 0, tm_yday = 0, tm_isdst = 0\<rparr>]"
proof -
  define s1 where "s1 = press_pass t now s"
  define s14 where "s14 = press_passes 13 (t + 250) now' s1"
  note e = enter_press [OF assms(1,2), of now, folded s1_def]
  have buf: "editBuffer s1 = strftime_buf (editBuffer s) TIME_STR_SIZE now" by (rule e(3))
  have "strftime_buf (editBuffer s) TIME_STR_SIZE now = x @ NUL # drop (length x + 1) (editBuffer s)"
    using assms(3) by (simp add: strftime_buf_def)
  then have cs: "c_str (editBuffer s1) = x"
    using strftime_ts_Some(2) [OF assms(3)] by (simp add: buf c_str_append_NUL)
  have ne: "\<forall>i<13. ((\<lambda>p. next_editable p p) ^^ i) (currentEditPos s1) \<noteq> 18"
    using thirteen_advances(2) by (simp only: e(2))
  note a = advance_presses [OF e(1) e(5) ne, of now', folded s14_def]
  have a14: "state s14 = SET_TIME" "currentEditPos s14 = 18" "editBuffer s14 = editBuffer s1"
    "set_time_calls s14 = set_time_calls s" "quiet (t + 250 + 250 * 13) s14"
    using a thirteen_advances(1) by (simp_all add: e(2) e(4))
  have unfold: "press_passes 14 (t + 250) now' s1 = press_pass (t + 250 + 250 * 13) now' s14"
    using press_passes_Suc_right [of 13 "t + 250" now' s1] by (simp add: s14_def)
  note c = commit_press [OF a14(1) a14(5) a14(2), of now']
  have parsed: "parseEditBufferToTm (editBuffer s14) =
      Some \<lparr>tm_sec = tm_sec now, tm_min = tm_min now, tm_hour = tm_hour now,
               tm_mday = tm_mday now, tm_mon = tm_mon now, tm_year = tm_year now,
               tm_wday = 0, tm_yday = 0, tm_isdst = 0\<rparr>"
    unfolding a14(3) buf using assms(3) by (rule parseEditBufferToTm_strftime_buf)
  show ?thesis
    unfolding s1_def [symmetric] s14_def [symmetric] unfold
    using e(1,2) cs a14(1,2,4) c(1,2) by (simp add: parsed)
qed


theorem C3_enter_advance_commit_witness:
  "state (init blank_eeprom) = IDLE \<and> quiet 500 (init blank_eeprom) \<and>
   strftime_ts TIME_STR_SIZE new_year = Some ''2025/01/01 00:00:00'' \<and>
   state (press_pass 500 new_year (init blank_eeprom)) = SET_TIME \<and>
   currentEditPos (press_passes 13 750 mid_june (press_pass 500 new_year (init blank_eeprom))) = 18 \<and>
   state (press_passes 14 750 mid_june (press_pass 500 new_year (init blank_eeprom))) = IDLE \<and>
   set_time_calls (press_passes 14 750 mid_june (press_pass 500 new_year (init blank_eeprom))) =
     [startup_time,
      \<lparr>tm_sec = 0, tm_min = 0, tm_hour = 0, tm_mday = 1, tm_mon = 0, tm_year = 125,
        tm_wday = 0, tm_yday = 0, tm_isdst = 0\<rparr>]"
proof -
  have c: "set_time_calls (init blank_eeprom) = [startup_time]"
    by (simp add: init_def)
  show ?thesis
    using C3_enter_advance_commit [where s = "init blank_eeprom" and t = 500 and now = new_year
        and x = "''2025/01/01 00:00:00''" and now' = mid_june]
      init_fields(1) [of blank_eeprom] quiet_init [of 500 blank_eeprom] strftime_samples(1) c
    by (simp add: new_year_def)
qed

text \<open>
  The count of 18 presses in claim C3 does not hold: the cursor skips the five
  separators, so the commit is the fourteenth press; the fifteenth enters the editor again
  and after the eighteenth the program is in \<open>SET_TIME\<close> with the cursor at 3.
\<close>

theorem C3_eighteen_advances_counterexample:
  "state (press_passes 18 750 mid_june (press_pass 500 new_year (init blank_eeprom))) = SET_TIME \<and>
   currentEditPos (press_passes 18 750 mid_june (press_pass 500 new_year (init blank_eeprom))) = 3 \<and>
   state (press_passes 18 750 mid_june (press_pass 500 new_year (init blank_eeprom))) \<noteq> IDLE"
  using eighteen_presses [where s = "init blank_eeprom" and t = 500 and now = new_year
      and now' = mid_june]
    init_fields(1) [of blank_eeprom] quiet_init [of 500 blank_eeprom]
  by simp


section \<open>What the parse of the editor accepts\<close>

lemma isdigit_value: "isdigit c \<Longrightarrow> of_char c - 48 \<le> (9::nat)"
  by (auto simp: isdigit_def)

lemma dec_value_bound: "\<forall>c \<in> set ds. isdigit c \<Longrightarrow> dec_value ds < 10 ^ length ds"
proof (induction ds rule: rev_induct)
  case Nil
  show ?case by (simp add: dec_value_def)
next
  case (snoc c ds)
  then have "dec_value ds < 10 ^ length ds" and "of_char c - 48 \<le> (9::nat)"
    by (simp_all add: isdigit_value)
  then show ?case unfolding dec_value_snoc by simp
qed

lemma digits_length: "n < 10 ^ k \<Longrightarrow> 0 < k \<Longrightarrow> length (digits n) \<le> k"
proof (induction n arbitrary: k rule: digits.induct)
  case (1 n)
  show ?case
  proof (cases "n < 10")
    case True
    then have "digits n = [digit_char n]" by (subst digits.simps) simp
    with 1(3) show ?thesis by simp
  next
    case False
    then have eq: "digits n = digits (n div 10) @ [digit_char (n mod 10)]"
      by (subst digits.simps) simp
    obtain j where k: "k = Suc j" using 1(3) by (cases k) auto
    with 1(2) False have "0 < j" by (cases j) auto
    moreover from 1(2) have "n div 10 < 10 ^ j" unfolding k by simp
    ultimately have "length (digits (n div 10)) \<le> j" using 1(1) [OF False] by blast
    then show ?thesis unfolding eq k by simp
  qed
qed

lemma sprintf_0d_exact:
  "0 \<le> v \<Longrightarrow> nat v < 10 ^ w \<Longrightarrow> 0 < w \<Longrightarrow> length (sprintf_0d w v) = w"
  "v < 0 \<Longrightarrow> nat (- v) < 10 ^ (w - 1) \<Longrightarrow> 1 < w \<Longrightarrow> length (sprintf_0d w v) = w"
  using digits_length [of "nat v" w] digits_length [of "nat (- v)" "w - 1"]
  by (auto simp: sprintf_0d_def)


lemma field_digits:
  fixes ds :: string
  assumes "ds = takeWhile isdigit (take k xs)" and "ds \<noteq> []"
  shows "dec_value ds < 10 ^ k" and "0 < k"
proof -
  have "\<forall>c \<in> set ds. isdigit c" unfolding assms(1) by (auto dest: set_takeWhileD)
  then have "dec_value ds < 10 ^ length ds" by (rule dec_value_bound)
  moreover have len: "length ds \<le> k"
    unfolding assms(1) using length_takeWhile_le [of isdigit "take k xs"] by simp
  then have "(10::nat) ^ length ds \<le> 10 ^ k" by (simp add: power_increasing)
  ultimately show "dec_value ds < 10 ^ k" by linarith
  show "0 < k" using len assms(2) by (cases k) auto
qed

lemma scan_d_exact:
  assumes "scan_d (Some w) s = Some (v, r)" and "0 < w"
  shows "length (sprintf_0d w v) = w"
proof (cases "dropWhile isspace s")
  case Nil
  with assms(1) show ?thesis by (simp add: scan_d_def)
next
  case (Cons c cs)
  show ?thesis
  proof (cases "c = CHR ''-'' \<or> c = CHR ''+''")
    case True
    define ds where "ds = takeWhile isdigit (take (w - 1) cs)"
    from assms(1) True have ne: "ds \<noteq> []"
      and v: "v = (if c = CHR ''-'' then - int (dec_value ds) else int (dec_value ds))"
      by (auto simp: scan_d_def Let_def Cons ds_def split: if_splits)
    note b = field_digits [OF ds_def ne]
    from b(2) have w: "1 < w" by simp
    have le: "(10::nat) ^ (w - 1) \<le> 10 ^ w" by (simp add: power_increasing)
    show ?thesis
    proof (cases "v < 0")
      case True
      with v have "nat (- v) = dec_value ds" by (simp split: if_splits)
      with b(1) show ?thesis using True w by (simp add: sprintf_0d_exact(2))
    next
      case False
      with v have "nat v \<le> dec_value ds" by (simp split: if_splits)
      with b(1) le have "nat v < 10 ^ w" by linarith
      with False assms(2) show ?thesis by (simp add: sprintf_0d_exact(1))
    qed
  next
    case False
    define ds where "ds = takeWhile isdigit (take w (c # cs))"
    from assms(1) False have ne: "ds \<noteq> []" and v: "v = int (dec_value ds)"
      by (auto simp: scan_d_def Let_def Cons ds_def split: if_splits)
    note b = field_digits [OF ds_def ne]
    from v b(1) assms(2) show ?thesis by (simp add: sprintf_0d_exact(1))
  qed
qed


text \<open>
  With the widths 4 and 2 of \<^verbatim>\<open>parseEditBufferToTm\<close>, every text that parses gives a time
  that prints as 19 characters and parses back to itself: on the path of the editor,
  printing after parsing is a fixed-width normal form.
\<close>

lemma sscanf_ts_fields:
  assumes "sscanf_ts wy w s = Some (y, mo, d, h, mi, se)"
  shows "\<exists>a r. scan_d wy a = Some (y, r)" "\<exists>a r. scan_d w a = Some (mo, r)"
    "\<exists>a r. scan_d w a = Some (d, r)" "\<exists>a r. scan_d w a = Some (h, r)"
    "\<exists>a r. scan_d w a = Some (mi, r)" "\<exists>a r. scan_d w a = Some (se, r)"
  using assms unfolding sscanf_ts_def
  by (auto simp: bind_eq_Some_conv split: prod.splits)

lemma editor_round_trip:
  assumes "parseEditBufferToTm buf = Some t"
  shows "\<exists>x. strftime_ts TIME_STR_SIZE t = Some x \<and> length x = 19"
    and "parseEditBufferToTm (strftime_buf b TIME_STR_SIZE t) = Some t"
proof -
  from assms obtain y mo d h mi se
    where sc: "sscanf_ts (Some 4) (Some 2) (c_str buf) = Some (y, mo, d, h, mi, se)"
      and t: "t = \<lparr>tm_sec = se, tm_min = mi, tm_hour = h, tm_mday = d, tm_mon = mo - 1,
                    tm_year = y - 1900, tm_wday = 0, tm_yday = 0, tm_isdst = 0\<rparr>"
    by (auto simp: parseEditBufferToTm_def split: option.splits)
  note f = sscanf_ts_fields [OF sc]
  have len: "length (sprintf_0d 4 y) = 4" "length (sprintf_0d 2 mo) = 2"
    "length (sprintf_0d 2 d) = 2" "length (sprintf_0d 2 h) = 2"
    "length (sprintf_0d 2 mi) = 2" "length (sprintf_0d 2 se) = 2"
    using f by (auto intro: scan_d_exact)
  have "length (sprintf_ts y mo d h mi se) = 19"
    by (simp add: length_sprintf_ts len)
  then have x: "strftime_ts TIME_STR_SIZE t = Some (sprintf_ts y mo d h mi se)"
    by (simp add: strftime_ts_def t TIME_STR_SIZE_def)
  then show "\<exists>x. strftime_ts TIME_STR_SIZE t = Some x \<and> length x = 19"
    using \<open>length (sprintf_ts y mo d h mi se) = 19\<close> by simp
  show "parseEditBufferToTm (strftime_buf b TIME_STR_SIZE t) = Some t"
    using parseEditBufferToTm_strftime_buf [OF x, of b] by (simp add: t)
qed


section \<open>Printing a stored record again\<close>

lemma wide_month_scans:
  "sscanf_ts None None ''2025/100/1 0:0:0'' = Some (2025, 100, 1, 0, 0, 0)"
  "sscanf_ts (Some 4) (Some 2) ''2025/100/1 0:0:0'' = None"
  by (simp_all add: sscanf_ts_def scan_d_def scan_lit_def isspace_def isdigit_def dec_value_def)

lemma wide_month_prints: "sprintf_ts 2025 100 1 0 0 0 = ''2025/100/01 00:00:00''"
  by (simp add: sprintf_ts_def sprintf_0d_def digits.simps digit_char_def)

lemma wide_month_c_str: "c_str wide_month = ''2025/100/1 0:0:0''" "length wide_month = 20"
  by (simp_all add: c_str_def wide_month_def)

text \<open>
  Claim C9 on the stored record \<^verbatim>\<open>2025/100/1 0:0:0\<close>.  The \<^verbatim>\<open>sscanf\<close> of \<^verbatim>\<open>displayLogs\<close>, which
  gives no field widths, reads six numbers from it, and the \<^verbatim>\<open>sprintf\<close> that follows prints
  them as 20 characters: one more than the fixed layout, and with the NUL one more than
  the array \<^verbatim>\<open>formattedLog1\<close> holds.  The parse of the editor, \<^verbatim>\<open>parseEditBufferToTm\<close>, has the
  widths 4 and 2 and rejects the same text.
\<close>

theorem C9_render_overflow:
  "length wide_month = TIME_STR_SIZE
   \<and> sscanf_ts None None (c_str wide_month) = Some (2025, 100, 1, 0, 0, 0)
   \<and> sprintf_ts 2025 100 1 0 0 0 = ''2025/100/01 00:00:00''
   \<and> length (sprintf_ts 2025 100 1 0 0 0) = 20
   \<and> formatLog wide_month = None
   \<and> parseEditBufferToTm wide_month = None"
  by (simp add: formatLog_def parseEditBufferToTm_def wide_month_c_str wide_month_scans
      wide_month_prints TIME_STR_SIZE_def)


end
